theory Spec2Isabelle
  imports Main "HOL-Library.Sublist"
begin

section \<open>Text of a page range: characters, trimming, splitting into sentences\<close>

text \<open>
  A Python \<open>str\<close> is modelled as a \<open>string\<close>; a \<open>char\<close> stands for a code point
  below 256.  \<open>is_space\<close> lists the code points below 256 that \<open>str.isspace\<close>
  accepts, which are the ones \<open>str.strip()\<close> removes at both ends.
\<close>

definition is_space :: "char \<Rightarrow> bool" where
  "is_space c \<longleftrightarrow>
     c \<in> {CHR 0x09, CHR 0x0A, CHR 0x0B, CHR 0x0C, CHR 0x0D, CHR 0x1C, CHR 0x1D,
          CHR 0x1E, CHR 0x1F, CHR 0x20, CHR 0x85, CHR 0xA0}"

definition strip :: "string \<Rightarrow> string" where
  "strip s = rev (dropWhile is_space (rev (dropWhile is_space s)))"

text \<open>The character class \<open>[.!?]\<close> of the pattern in \<open>speak_text\<close>.\<close>

definition terminal :: "char \<Rightarrow> bool" where
  "terminal c \<longleftrightarrow> c = CHR ''.'' \<or> c = CHR ''!'' \<or> c = CHR ''?''"

text \<open>
  \<open>re.split(r'[.!?]+', text)\<close>: the text before the first match, then the split of
  what follows the match; a match is a maximal run of terminal characters (the \<open>+\<close> is
  greedy).  When no match is left the remaining text is the last piece, also when it is
  empty.
\<close>

function re_split :: "string \<Rightarrow> string list" where
  "re_split s =
     (let piece = takeWhile (\<lambda>c. \<not> terminal c) s;
          rest = dropWhile (\<lambda>c. \<not> terminal c) s
      in if rest = [] then [piece]
         else piece # re_split (dropWhile terminal rest))"
  by pat_completeness auto
termination
proof (relation "measure length")
  show "wf (measure length)" by simp
next
  fix s :: string and rest :: string
  assume r: "rest = dropWhile (\<lambda>c. \<not> terminal c) s" and ne: "rest \<noteq> []"
  from r ne have "terminal (hd rest)"
    using hd_dropWhile [of "\<lambda>c. \<not> terminal c" s] by simp
  with ne have "dropWhile terminal rest = dropWhile terminal (tl rest)"
    by (cases rest) simp_all
  moreover have "length (dropWhile terminal (tl rest)) \<le> length (tl rest)"
    by (rule length_dropWhile_le)
  moreover from ne have "length (tl rest) < length rest" by simp
  moreover from r have "length rest \<le> length s" by (simp add: length_dropWhile_le)
  ultimately show "(dropWhile terminal rest, s) \<in> measure length" by simp
qed

declare re_split.simps [simp del]

text \<open>
  The units \<open>speak_text\<close> hands to the engine when nothing stops it: of the pieces, in
  order, those with \<open>sentence.strip()\<close> non-empty, each stripped.
\<close>

definition segment :: "string \<Rightarrow> string list" where
  "segment text = map strip (filter (\<lambda>sentence. strip sentence \<noteq> []) (re_split text))"

text \<open>\<open>weave gaps units\<close> is the text that has the units in this order, with the gaps around
  and between them.\<close>

fun weave :: "string list \<Rightarrow> string list \<Rightarrow> string" where
  "weave (g # gs) (u # us) = g @ u @ weave gs us"
| "weave (g # gs) [] = g"
| "weave [] us = []"


section \<open>The narration task: \<open>speak_text\<close>\<close>

text \<open>
  \<open>speak_text\<close> runs in a thread of its own and reads the two \<open>Event\<close>s \<open>paused\<close> and
  \<open>stopped\<close>, which the controlling thread sets and clears meanwhile.  The task counts its
  reads of the flags in \<open>clock\<close>; \<open>paused_at k\<close> and \<open>stopped_at k\<close> are what
  \<open>is_set()\<close> returns to the read with number \<open>k\<close>.  Every run of the two threads gives
  one such pair of functions, so a statement for all of them covers every interleaving.
\<close>

record signals =
  paused_at :: "nat \<Rightarrow> bool"
  stopped_at :: "nat \<Rightarrow> bool"

text \<open>
  The speech engine is a parameter: \<open>sink unit e\<close> models \<open>engine.say(unit)\<close> followed by
  \<open>engine.runAndWait()\<close> on an engine in state \<open>e\<close>; \<open>Inl\<close> is an exception raised by
  either call.
\<close>

datatype exn = EngineError string

type_synonym 'e sink = "string \<Rightarrow> 'e \<Rightarrow> exn + 'e"

text \<open>\<open>spoken\<close> records the units whose rendering has returned, each with the value of
  \<open>clock\<close> at that moment.\<close>

record 'e narration =
  engine :: 'e
  spoken :: "(nat \<times> string) list"
  clock :: nat

datatype outcome = Completed | Raised exn

text \<open>
  The inner loop \<open>while self.paused.is_set(): if self.stopped.is_set(): break;
  time.sleep(0.1)\<close>, started at read \<open>t\<close>; the result is the number of the next read.
  The loop does not end while \<open>paused\<close> stays set and \<open>stopped\<close> stays clear.
\<close>

partial_function (option) wait_while_paused :: "signals \<Rightarrow> nat \<Rightarrow> nat option" where
  "wait_while_paused env t =
     (if paused_at env t
      then (if stopped_at env (Suc t) then Some (t + 2) else wait_while_paused env (t + 2))
      else Some (Suc t))"

declare wait_while_paused.simps [code]

text \<open>The \<open>for\<close> loop of \<open>speak_text\<close> over the pieces still to be read.\<close>

fun speak_loop ::
  "signals \<Rightarrow> 'e sink \<Rightarrow> string list \<Rightarrow> 'e narration \<Rightarrow> (outcome \<times> 'e narration) option"
where
  "speak_loop env sink [] n = Some (Completed, n)"
| "speak_loop env sink (sentence # sentences) n =
     (if stopped_at env (clock n) then Some (Completed, n\<lparr>clock := clock n + 1\<rparr>)
      else case wait_while_paused env (clock n + 1) of
        None \<Rightarrow> None
      | Some t \<Rightarrow>
          if stopped_at env t then Some (Completed, n\<lparr>clock := t + 1\<rparr>)
          else if strip sentence \<noteq> [] then
            (case sink (strip sentence) (engine n) of
               Inl e \<Rightarrow> Some (Raised e, n\<lparr>clock := t + 1\<rparr>)
             | Inr eng \<Rightarrow>
                 speak_loop env sink sentences
                   (n\<lparr>engine := eng, spoken := spoken n @ [(t + 1, strip sentence)],
                      clock := t + 1\<rparr>))
          else speak_loop env sink sentences (n\<lparr>clock := t + 1\<rparr>))"

definition speak_text ::
  "signals \<Rightarrow> 'e sink \<Rightarrow> string \<Rightarrow> 'e \<Rightarrow> (outcome \<times> 'e narration) option"
where
  "speak_text env sink text eng =
     speak_loop env sink (re_split text) \<lparr>engine = eng, spoken = [], clock = 0\<rparr>"


section \<open>The reader object and its surroundings\<close>

text \<open>
  The bookmark file on disk is missing, or not readable as JSON (\<open>open\<close> or \<open>json.load\<close>
  raises), or holds the JSON object that \<open>save_bookmark\<close> writes: a mapping from document
  paths to page indices.  A file that parses to any other JSON value is outside the
  persisted layout and is not represented.
\<close>

datatype file_state = Missing | Corrupt | Holds "string \<rightharpoonup> int"

text \<open>
  A PDF file cannot be opened or parsed (with the text of the exception), or has pages;
  \<open>extract_text()\<close> of a page returns its text or raises.
\<close>

datatype page = Page string | Broken string

datatype pdf_file = Unreadable string | Pdf "page list"

text \<open>What the controlling thread does with narration threads: \<open>Start k text\<close> is
  \<open>Thread(target=self.speak_text, args=(text,)).start()\<close> for the thread numbered \<open>k\<close>,
  \<open>Join k\<close> is a \<open>join()\<close> of that thread that has returned.\<close>

datatype action = Start nat string | Join nat

text \<open>
  The fields of \<open>PDFReader\<close> that the modelled methods use (\<open>paused\<close>, \<open>stopped\<close>,
  \<open>current_pdf\<close>, \<open>current_page\<close>), followed by the surroundings: the contents of the
  bookmark file, whether writing it fails (\<open>Some\<close> the text of the exception) and whether
  a failing write is torn (the exception comes from \<open>json.dump\<close> or from closing the file,
  after \<open>open(..., 'w')\<close> has truncated it, so that the file is left unparsable; otherwise
  \<open>open\<close> itself raises and the file is as it was), the PDF files by path, the lines
  printed so far, and the thread actions so far.
\<close>

record reader =
  paused :: bool
  stopped :: bool
  current_pdf :: "string option"
  current_page :: int
  bookmark_file :: file_state
  write_error :: "string option"
  torn_write :: bool
  pdfs :: "string \<Rightarrow> pdf_file"
  printed :: "string list"
  trace :: "action list"

definition print :: "string \<Rightarrow> reader \<Rightarrow> reader" where
  "print line r = r\<lparr>printed := printed r @ [line]\<rparr>"

subsection \<open>Decimal numerals: \<open>str(int)\<close> and \<open>int(str)\<close>\<close>

definition digit_char :: "nat \<Rightarrow> char" where
  "digit_char d = ''0123456789'' ! d"

fun digits :: "nat \<Rightarrow> string" where
  "digits n = (if n < 10 then [digit_char n] else digits (n div 10) @ [digit_char (n mod 10)])"

declare digits.simps [simp del]

definition str_int :: "int \<Rightarrow> string" where
  "str_int i = (if i < 0 then CHR ''-'' # digits (nat (- i)) else digits (nat i))"

definition is_digit :: "char \<Rightarrow> bool" where
  "is_digit c \<longleftrightarrow> c \<in> set ''0123456789''"

definition digit_val :: "char \<Rightarrow> nat" where
  "digit_val c = of_char c - 48"

text \<open>The digits of a decimal literal after the sign: single underscores are allowed
  between digits.\<close>

fun parse_digits :: "nat \<Rightarrow> string \<Rightarrow> nat option" where
  "parse_digits acc [] = Some acc"
| "parse_digits acc (c # cs) =
     (if is_digit c then parse_digits (10 * acc + digit_val c) cs
      else if c = CHR ''_'' then
        (case cs of [] \<Rightarrow> None | d # _ \<Rightarrow> if is_digit d then parse_digits acc cs else None)
      else None)"

text \<open>\<open>int(s)\<close> for a string: \<open>None\<close> stands for \<open>ValueError\<close>, which CPython
  also raises for a numeral of more than 4300 digits (underscores and the sign are not
  counted).\<close>

definition py_int :: "string \<Rightarrow> int option" where
  "py_int s =
     (case strip s of
        [] \<Rightarrow> None
      | c # cs \<Rightarrow>
          (let body = (if c = CHR ''-'' \<or> c = CHR ''+'' then cs else c # cs)
           in case body of
                [] \<Rightarrow> None
              | d # _ \<Rightarrow>
                  if is_digit d \<and> length (filter is_digit body) \<le> 4300
                  then map_option (\<lambda>n. if c = CHR ''-'' then - int n else int n)
                         (parse_digits 0 body)
                  else None))"

text \<open>\<open>str.lower()\<close> on code points below 256.\<close>

definition lower_char :: "char \<Rightarrow> char" where
  "lower_char c =
     (let n = (of_char c :: nat)
      in if (65 \<le> n \<and> n \<le> 90) \<or> (192 \<le> n \<and> n \<le> 222 \<and> n \<noteq> 215)
         then char_of (n + 32) else c)"

definition lower :: "string \<Rightarrow> string" where
  "lower s = map lower_char s"

subsection \<open>Bookmarks\<close>

definition load_bookmarks :: "reader \<Rightarrow> (string \<rightharpoonup> int)" where
  "load_bookmarks r =
     (case bookmark_file r of Missing \<Rightarrow> Map.empty | Corrupt \<Rightarrow> Map.empty | Holds m \<Rightarrow> m)"

definition get_bookmark :: "string \<Rightarrow> reader \<Rightarrow> int" where
  "get_bookmark pdf_path r = (case load_bookmarks r pdf_path of None \<Rightarrow> 0 | Some p \<Rightarrow> p)"

definition save_bookmark :: "string \<Rightarrow> int \<Rightarrow> reader \<Rightarrow> reader" where
  "save_bookmark pdf_path page_num r =
     (let bookmarks = (load_bookmarks r)(pdf_path \<mapsto> page_num)
      in case write_error r of
           None \<Rightarrow>
             print (CHR 0x0A # ''Bookmark saved at page '' @ str_int (page_num + 1))
               (r\<lparr>bookmark_file := Holds bookmarks\<rparr>)
         | Some e \<Rightarrow>
             print (''Error saving bookmark: '' @ e)
               (if torn_write r then r\<lparr>bookmark_file := Corrupt\<rparr> else r))"

subsection \<open>Text extraction\<close>

text \<open>\<open>pdf_reader.pages[page_num]\<close>: a negative index counts from the end, an index out
  of range raises \<open>IndexError\<close>.\<close>

definition get_page :: "page list \<Rightarrow> int \<Rightarrow> string + page" where
  "get_page pages i =
     (if 0 \<le> i \<and> i < int (length pages) then Inr (pages ! nat i)
      else if i < 0 \<and> - int (length pages) \<le> i then Inr (pages ! nat (int (length pages) + i))
      else Inl ''sequence index out of range'')"

definition marker :: "int \<Rightarrow> string" where
  "marker page_num = CHR 0x0A # ''--- Page '' @ str_int (page_num + 1) @ '' ---'' @ [CHR 0x0A]"

text \<open>The \<open>for\<close> loop of \<open>extract_text_from_pdf\<close> over the page numbers left, with the
  text so far; \<open>Inl\<close> is an exception.\<close>

fun extract_pages :: "page list \<Rightarrow> int list \<Rightarrow> string \<Rightarrow> string + string" where
  "extract_pages pages [] text = Inr text"
| "extract_pages pages (page_num # page_nums) text =
     (case get_page pages page_num of
        Inl e \<Rightarrow> Inl e
      | Inr (Broken e) \<Rightarrow> Inl e
      | Inr (Page t) \<Rightarrow> extract_pages pages page_nums (text @ marker page_num @ t))"

text \<open>The result is the returned pair and the reader after the \<open>print\<close> of the
  \<open>except\<close> branch.\<close>

definition extract_text_from_pdf ::
  "string \<Rightarrow> int \<Rightarrow> int option \<Rightarrow> reader \<Rightarrow> (string option \<times> int) \<times> reader"
where
  "extract_text_from_pdf pdf_path start_page end_page r =
     (case pdfs r pdf_path of
        Unreadable e \<Rightarrow> ((None, 0), print (''Error reading PDF: '' @ e) r)
      | Pdf pages \<Rightarrow>
          (let total_pages = int (length pages);
               end_page = (case end_page of None \<Rightarrow> total_pages | Some e \<Rightarrow> e)
           in case extract_pages pages [start_page .. min end_page total_pages - 1] [] of
                Inl e \<Rightarrow> ((None, 0), print (''Error reading PDF: '' @ e) r)
              | Inr text \<Rightarrow> ((Some text, total_pages), r)))"


subsection \<open>Playback: \<open>read_pdf\<close> and \<open>handle_controls\<close>\<close>

text \<open>
  What the controlling thread receives from outside, as two finite scripts: the results
  of its calls of \<open>input()\<close> (a line, or \<open>EOFError\<close>), and the results of its calls of
  \<open>read_thread.is_alive()\<close>.  The functions run until they return or until a script
  has run out, and give back what is left of the scripts.
\<close>

datatype input = Line string | EOF

datatype control = Returned | Waiting

definition start :: "nat \<Rightarrow> string \<Rightarrow> reader \<Rightarrow> reader" where
  "start read_thread text r = r\<lparr>trace := trace r @ [Start read_thread text]\<rparr>"

definition join :: "nat \<Rightarrow> reader \<Rightarrow> reader" where
  "join read_thread r = r\<lparr>trace := trace r @ [Join read_thread]\<rparr>"

definition banner :: "int \<Rightarrow> string list" where
  "banner start_page =
     [CHR 0x0A # ''Reading from page '' @ str_int (start_page + 1) @ ''...'',
      CHR 0x0A # ''Controls:'',
      ''  'p' - Pause/Resume'',
      ''  's' - Stop'',
      ''  'b' - Bookmark current page'',
      ''  'n' - Next 5 pages'',
      ''  'j' - Jump to page'']"

definition toggle_pause :: "reader \<Rightarrow> reader" where
  "toggle_pause r =
     (if paused r then print ''Resumed'' (r\<lparr>paused := False\<rparr>)
      else print ''Paused'' (r\<lparr>paused := True\<rparr>))"

text \<open>After \<open>self.read_pdf(...)\<close> has returned inside \<open>handle_controls\<close>: \<open>break\<close>, then
  the \<open>read_thread.join()\<close> that ends the function.\<close>

definition leave :: "nat \<Rightarrow> control \<times> input list \<times> bool list \<times> reader \<Rightarrow>
    control \<times> input list \<times> bool list \<times> reader" where
  "leave read_thread res =
     (case res of
        (Returned, ins, obs, r) \<Rightarrow> (Returned, ins, obs, join read_thread r)
      | (Waiting, ins, obs, r) \<Rightarrow> (Waiting, ins, obs, r))"

text \<open>The first statements of \<open>read_pdf\<close>: the assignments to the fields, and the lines
  it prints.\<close>

definition announce :: "string \<Rightarrow> int \<Rightarrow> reader \<Rightarrow> reader" where
  "announce pdf_path start_page r =
     foldl (\<lambda>r line. print line r)
       (r\<lparr>current_pdf := Some pdf_path, current_page := start_page,
          stopped := False, paused := False\<rparr>)
       (banner start_page)"

fun read_pdf ::
    "string \<Rightarrow> int \<Rightarrow> input list \<Rightarrow> bool list \<Rightarrow> reader \<Rightarrow>
     control \<times> input list \<times> bool list \<times> reader"
  and handle_controls ::
    "nat \<Rightarrow> string \<Rightarrow> int \<Rightarrow> int \<Rightarrow> input list \<Rightarrow> bool list \<Rightarrow> reader \<Rightarrow>
     control \<times> input list \<times> bool list \<times> reader"
where
  "read_pdf pdf_path start_page ins obs r =
     (case extract_text_from_pdf pdf_path start_page None (announce pdf_path start_page r) of
        ((None, total_pages), r') \<Rightarrow> (Returned, ins, obs, r')
      | ((Some text, total_pages), r') \<Rightarrow>
          if text = [] then (Returned, ins, obs, r')
          else handle_controls (length (trace r')) pdf_path start_page total_pages ins obs
                 (start (length (trace r')) text r'))"
| "handle_controls read_thread pdf_path start_page total_pages ins [] r = (Waiting, ins, [], r)"
| "handle_controls read_thread pdf_path start_page total_pages ins (False # obs) r =
     (Returned, ins, obs, join read_thread r)"
| "handle_controls read_thread pdf_path start_page total_pages [] (True # obs) r =
     (Waiting, [], obs, r)"
| "handle_controls read_thread pdf_path start_page total_pages (EOF # ins) (True # obs) r =
     handle_controls read_thread pdf_path start_page total_pages ins obs r"
| "handle_controls read_thread pdf_path start_page total_pages (Line l # ins) (True # obs) r =
     (let command = lower (strip l)
      in if command = ''p'' then
           handle_controls read_thread pdf_path start_page total_pages ins obs (toggle_pause r)
         else if command = ''s'' then
           (Returned, ins, obs, join read_thread (print ''Stopped'' (r\<lparr>stopped := True\<rparr>)))
         else if command = ''b'' then
           handle_controls read_thread pdf_path start_page total_pages ins obs
             (save_bookmark pdf_path (current_page r) r)
         else if command = ''n'' then
           leave read_thread
             (read_pdf pdf_path (min (start_page + 5) (total_pages - 1)) ins obs
                (join read_thread (r\<lparr>stopped := True\<rparr>)))
         else if command = ''j'' then
           (case ins of
              [] \<Rightarrow> (Waiting, [], obs, print ''Enter page number: '' r)
            | EOF # ins' \<Rightarrow>
                handle_controls read_thread pdf_path start_page total_pages ins' obs
                  (print ''Enter page number: '' r)
            | Line page_input # ins' \<Rightarrow>
                (case py_int (strip page_input) of
                   None \<Rightarrow>
                     handle_controls read_thread pdf_path start_page total_pages ins' obs
                       (print ''Invalid input. Please enter a number.''
                          (print ''Enter page number: '' r))
                 | Some n \<Rightarrow>
                     (let jump_page = n - 1
                      in if 0 \<le> jump_page \<and> jump_page < total_pages then
                           leave read_thread
                             (read_pdf pdf_path jump_page ins' obs
                                (join read_thread
                                   ((print ''Enter page number: '' r)\<lparr>stopped := True\<rparr>)))
                         else
                           handle_controls read_thread pdf_path start_page total_pages ins' obs
                             (print (''Invalid page. Must be between 1 and ''
                                       @ str_int total_pages)
                                (print ''Enter page number: '' r)))))
         else handle_controls read_thread pdf_path start_page total_pages ins obs r)"

declare read_pdf.simps [simp del] handle_controls.simps [simp del]

text \<open>\<open>PDFReader()\<close> in given surroundings: both events clear, no document, page 0; a
  failing write fails at \<open>open\<close>.\<close>

definition new_reader :: "file_state \<Rightarrow> string option \<Rightarrow> (string \<Rightarrow> pdf_file) \<Rightarrow> reader" where
  "new_reader file werr docs =
     \<lparr>paused = False, stopped = False, current_pdf = None, current_page = 0,
      bookmark_file = file, write_error = werr, torn_write = False, pdfs = docs,
      printed = [], trace = []\<rparr>"

subsection \<open>Live narration threads\<close>

text \<open>
  The threads that may be running after a thread action, given those that may have been
  running before it: a started thread may run until a \<open>join()\<close> of it has returned.
\<close>

fun after :: "nat list \<Rightarrow> action \<Rightarrow> nat list" where
  "after live (Start k text) = live @ [k]"
| "after live (Join k) = removeAll k live"

definition live_tasks :: "action list \<Rightarrow> nat list" where
  "live_tasks tr = foldl after [] tr"

text \<open>\<open>orderly live tr\<close>: in the actions \<open>tr\<close>, done when the threads \<open>live\<close> may be running,
  a thread is started only when no thread may be running.\<close>

fun orderly :: "nat list \<Rightarrow> action list \<Rightarrow> bool" where
  "orderly live [] = True"
| "orderly live (Start k text # tr) = (live = [] \<and> orderly [k] tr)"
| "orderly live (Join k # tr) = orderly (removeAll k live) tr"

section \<open>Segmentation into speakable units\<close>

lemma all_dropWhile_iff: "(\<forall>x\<in>set (dropWhile P xs). P x) \<longleftrightarrow> (\<forall>x\<in>set xs. P x)"
  by (induction xs) auto

lemma strip_Nil_iff: "strip s = [] \<longleftrightarrow> (\<forall>c\<in>set s. is_space c)"
  unfolding strip_def
  by (simp only: rev_is_Nil_conv dropWhile_eq_Nil_conv set_rev all_dropWhile_iff)

lemma rev_drop_take: "rev (dropWhile P ys) @ rev (takeWhile P ys) = rev ys"
  by (simp flip: rev_append)

lemma strip_parts:
  "s = takeWhile is_space s @ strip s @ rev (takeWhile is_space (rev (dropWhile is_space s)))"
  by (simp add: strip_def rev_drop_take)

lemma strip_ends:
  assumes "strip s \<noteq> []"
  shows "\<not> is_space (hd (strip s))" and "\<not> is_space (last (strip s))"
proof -
  let ?t = "dropWhile is_space s"
  let ?u = "dropWhile is_space (rev ?t)"
  from assms have u: "?u \<noteq> []" by (simp add: strip_def)
  then have "\<not> is_space (hd ?u)" using hd_dropWhile [of is_space "rev ?t"] by simp
  with u show "\<not> is_space (last (strip s))" by (simp add: strip_def last_rev)
  from u have t: "?t \<noteq> []" by (cases ?t) auto
  then have h: "\<not> is_space (hd ?t)" using hd_dropWhile [of is_space s] by simp
  have "?t = strip s @ rev (takeWhile is_space (rev ?t))"
    by (simp add: strip_def rev_drop_take)
  then have "hd ?t = hd (strip s @ rev (takeWhile is_space (rev ?t)))" by (rule arg_cong)
  also from assms have "\<dots> = hd (strip s)" by (rule hd_append2)
  finally have "hd (strip s) = hd ?t" by (rule sym)
  with h show "\<not> is_space (hd (strip s))" by simp
qed

lemma dropWhile_hd_id: "xs \<noteq> [] \<Longrightarrow> \<not> P (hd xs) \<Longrightarrow> dropWhile P xs = xs"
  by (cases xs) simp_all

lemma strip_strip: "strip (strip s) = strip s"
proof (cases "strip s = []")
  case True
  have "strip [] = []" by (simp add: strip_def)
  with True show ?thesis by simp
next
  case False
  then have e: "\<not> is_space (hd (strip s))" "\<not> is_space (last (strip s))"
    by (rule strip_ends)+
  from False e(1) have 1: "dropWhile is_space (strip s) = strip s"
    by (rule dropWhile_hd_id)
  from False e(2) have "\<not> is_space (hd (rev (strip s)))" by (simp add: hd_rev)
  with False have 2: "dropWhile is_space (rev (strip s)) = rev (strip s)"
    by (intro dropWhile_hd_id) simp_all
  have "strip (strip s) = rev (dropWhile is_space (rev (dropWhile is_space (strip s))))"
    by (simp only: strip_def [of "strip s"])
  also have "\<dots> = strip s" by (simp only: 1 2 rev_rev_ident)
  finally show ?thesis .
qed

lemma re_split_last:
  "dropWhile (\<lambda>c. \<not> terminal c) s = [] \<Longrightarrow> re_split s = [takeWhile (\<lambda>c. \<not> terminal c) s]"
  by (subst re_split.simps) (simp only: Let_def if_True if_False simp_thms)

lemma re_split_more:
  "dropWhile (\<lambda>c. \<not> terminal c) s \<noteq> [] \<Longrightarrow>
   re_split s = takeWhile (\<lambda>c. \<not> terminal c) s #
     re_split (dropWhile terminal (dropWhile (\<lambda>c. \<not> terminal c) s))"
  by (subst re_split.simps) (simp only: Let_def if_True if_False simp_thms)

lemma re_split_plain:
  assumes "\<forall>c\<in>set s. \<not> terminal c"
  shows "re_split s = [s]"
proof -
  from assms have "dropWhile (\<lambda>c. \<not> terminal c) s = []" "takeWhile (\<lambda>c. \<not> terminal c) s = s"
    by (simp_all add: dropWhile_eq_Nil_conv takeWhile_eq_all_conv)
  then show ?thesis by (simp add: re_split_last)
qed

lemma re_split_pieces: "p \<in> set (re_split s) \<Longrightarrow> c \<in> set p \<Longrightarrow> \<not> terminal c"
proof (induction s arbitrary: p rule: re_split.induct)
  case (1 s)
  let ?rest = "dropWhile (\<lambda>c. \<not> terminal c) s"
  show ?case
  proof (cases "?rest = []")
    case True
    with "1.prems"(1) have "p = takeWhile (\<lambda>c. \<not> terminal c) s"
      by (subst (asm) re_split_last) simp_all
    with "1.prems"(2) show ?thesis by (auto dest: set_takeWhileD)
  next
    case False
    with "1.prems"(1)
    have "p = takeWhile (\<lambda>c. \<not> terminal c) s \<or> p \<in> set (re_split (dropWhile terminal ?rest))"
      by (subst (asm) re_split_more) simp_all
    then show ?thesis
    proof
      assume "p = takeWhile (\<lambda>c. \<not> terminal c) s"
      with "1.prems"(2) show ?thesis by (auto dest: set_takeWhileD)
    next
      assume "p \<in> set (re_split (dropWhile terminal ?rest))"
      from "1.IH" [OF refl refl False this "1.prems"(2)] show ?thesis .
    qed
  qed
qed

lemma segment_last:
  assumes "dropWhile (\<lambda>c. \<not> terminal c) s = []"
  shows "segment s = (if strip s = [] then [] else [strip s])"
proof -
  from assms have "\<forall>c\<in>set s. \<not> terminal c" by (simp only: dropWhile_eq_Nil_conv)
  then have "re_split s = [s]" by (rule re_split_plain)
  then show ?thesis by (simp add: segment_def)
qed

lemma segment_more:
  "dropWhile (\<lambda>c. \<not> terminal c) s \<noteq> [] \<Longrightarrow>
   segment s = (if strip (takeWhile (\<lambda>c. \<not> terminal c) s) = [] then []
                else [strip (takeWhile (\<lambda>c. \<not> terminal c) s)]) @
               segment (dropWhile terminal (dropWhile (\<lambda>c. \<not> terminal c) s))"
  unfolding segment_def by (subst re_split_more) simp_all


lemma weave_prepend: "weave ((x @ g) # gs) us = x @ weave (g # gs) us"
  by (cases us) simp_all

lemma segment_woven:
  "\<exists>gaps. length gaps = Suc (length (segment s)) \<and> weave gaps (segment s) = s \<and>
     (\<forall>g\<in>set gaps. \<forall>c\<in>set g. terminal c \<or> is_space c) \<and>
     (\<forall>i. 0 < i \<and> i < length (segment s) \<longrightarrow> (\<exists>c\<in>set (gaps ! i). terminal c))"
proof (induction s rule: re_split.induct)
  case (1 s)
  define piece where "piece = takeWhile (\<lambda>c. \<not> terminal c) s"
  define rest where "rest = dropWhile (\<lambda>c. \<not> terminal c) s"
  define u where "u = strip piece"
  define l where "l = takeWhile is_space piece"
  define r where "r = rev (takeWhile is_space (rev (dropWhile is_space piece)))"
  have piece: "l @ u @ r = piece"
    unfolding l_def r_def u_def by (rule strip_parts [symmetric])
  have l: "\<forall>c\<in>set l. is_space c" and r: "\<forall>c\<in>set r. is_space c"
    unfolding l_def r_def by (auto dest: set_takeWhileD)
  have blank: "\<forall>c\<in>set piece. is_space c" if "u = []"
    using that unfolding u_def by (simp only: strip_Nil_iff)
  show ?case
  proof (cases "rest = []")
    case True
    then have "\<forall>c\<in>set s. \<not> terminal c"
      unfolding rest_def by (simp only: dropWhile_eq_Nil_conv)
    then have ps: "piece = s"
      unfolding piece_def by (simp only: takeWhile_eq_all_conv)
    from True have seg: "segment s = (if u = [] then [] else [u])"
      unfolding rest_def u_def ps by (rule segment_last)
    show ?thesis
    proof (cases "u = []")
      case True
      with blank have "\<forall>c\<in>set s. is_space c" unfolding ps by simp
      with True seg show ?thesis by (intro exI [of _ "[s]"]) simp
    next
      case False
      from piece have "weave [l, r] [u] = s" unfolding ps by simp
      with False seg l r show ?thesis by (intro exI [of _ "[l, r]"]) simp
    qed
  next
    case False
    define delim where "delim = takeWhile terminal rest"
    define tail where "tail = dropWhile terminal rest"
    have s_eq: "piece @ delim @ tail = s"
      unfolding piece_def delim_def tail_def rest_def by simp
    from False have "terminal (hd rest)"
      unfolding rest_def using hd_dropWhile [of "\<lambda>c. \<not> terminal c" s] by simp
    with False have hd_delim: "\<exists>c\<in>set delim. terminal c"
      unfolding delim_def by (cases rest) auto
    have delim: "\<forall>c\<in>set delim. terminal c"
      unfolding delim_def by (auto dest: set_takeWhileD)
    from False have "\<exists>gaps. length gaps = Suc (length (segment tail)) \<and>
        weave gaps (segment tail) = tail \<and>
        (\<forall>g\<in>set gaps. \<forall>c\<in>set g. terminal c \<or> is_space c) \<and>
        (\<forall>i. 0 < i \<and> i < length (segment tail) \<longrightarrow> (\<exists>c\<in>set (gaps ! i). terminal c))"
      unfolding tail_def rest_def by (rule "1.IH" [OF refl refl])
    then obtain gaps where
      len: "length gaps = Suc (length (segment tail))" and
      wv: "weave gaps (segment tail) = tail" and
      ch: "\<forall>g\<in>set gaps. \<forall>c\<in>set g. terminal c \<or> is_space c" and
      inner: "\<forall>i. 0 < i \<and> i < length (segment tail) \<longrightarrow> (\<exists>c\<in>set (gaps ! i). terminal c)"
      by blast
    from len obtain g0 gs where gaps: "gaps = g0 # gs" by (cases gaps) simp_all
    from False have seg: "segment s = (if u = [] then [] else [u]) @ segment tail"
      unfolding rest_def tail_def u_def piece_def by (rule segment_more)
    show ?thesis
    proof (cases "u = []")
      case True
      let ?gaps = "(piece @ delim @ g0) # gs"
      from True seg have seg': "segment s = segment tail" by simp
      from True have sp: "\<forall>c\<in>set piece. is_space c" by (rule blank)
      have 1: "length ?gaps = Suc (length (segment s))" using len gaps seg' by simp
      have "weave ?gaps (segment tail) = piece @ delim @ weave gaps (segment tail)"
        unfolding gaps using weave_prepend [of "piece @ delim" g0 gs] by simp
      with wv s_eq seg' have 2: "weave ?gaps (segment s) = s" by simp
      have 3: "\<forall>g\<in>set ?gaps. \<forall>c\<in>set g. terminal c \<or> is_space c"
        using ch sp delim unfolding gaps by auto
      have 4: "\<forall>i. 0 < i \<and> i < length (segment s) \<longrightarrow> (\<exists>c\<in>set (?gaps ! i). terminal c)"
      proof (intro allI impI)
        fix i assume i: "0 < i \<and> i < length (segment s)"
        then have "?gaps ! i = gaps ! i" unfolding gaps by (cases i) simp_all
        with i inner seg' show "\<exists>c\<in>set (?gaps ! i). terminal c" by simp
      qed
      from 1 2 3 4 show ?thesis by blast
    next
      case nonblank: False
      let ?gaps = "l # (r @ delim @ g0) # gs"
      from nonblank seg have seg': "segment s = u # segment tail" by simp
      have 1: "length ?gaps = Suc (length (segment s))" using len gaps seg' by simp
      have "weave ?gaps (segment s) = l @ u @ r @ delim @ weave gaps (segment tail)"
        unfolding gaps seg' using weave_prepend [of "r @ delim" g0 gs] by simp
      also have "\<dots> = (l @ u @ r) @ delim @ tail" by (simp only: wv append_assoc)
      also have "\<dots> = s" by (simp only: piece s_eq)
      finally have 2: "weave ?gaps (segment s) = s" .
      have 3: "\<forall>g\<in>set ?gaps. \<forall>c\<in>set g. terminal c \<or> is_space c"
        using ch l r delim unfolding gaps by auto
      have 4: "\<forall>i. 0 < i \<and> i < length (segment s) \<longrightarrow> (\<exists>c\<in>set (?gaps ! i). terminal c)"
      proof (intro allI impI)
        fix i assume i: "0 < i \<and> i < length (segment s)"
        show "\<exists>c\<in>set (?gaps ! i). terminal c"
        proof (cases "i = 1")
          case True
          with hd_delim show ?thesis by auto
        next
          case False
          with i obtain j where j: "i = Suc j" "0 < j" by (cases i) auto
          with i seg' have "j < length (segment tail)" by simp
          with j inner have "\<exists>c\<in>set (gaps ! j). terminal c" by simp
          moreover from j have "?gaps ! i = gaps ! j" unfolding gaps by (cases j) simp_all
          ultimately show ?thesis by simp
        qed
      qed
      from 1 2 3 4 show ?thesis by blast
    qed
  qed
qed

lemma set_strip: "set (strip s) \<subseteq> set s"
proof -
  have "set (strip s) \<subseteq> set (dropWhile is_space s)"
    unfolding strip_def using set_dropWhileD [of _ is_space "rev (dropWhile is_space s)"]
    by auto
  also have "\<dots> \<subseteq> set s" by (auto dest: set_dropWhileD)
  finally show ?thesis .
qed

lemma segment_units:
  assumes "u \<in> set (segment T)"
  shows "u \<noteq> []" and "strip u = u" and "\<forall>c\<in>set u. \<not> terminal c"
proof -
  from assms obtain p where p: "p \<in> set (re_split T)" "strip p \<noteq> []" "u = strip p"
    unfolding segment_def by auto
  from p show "u \<noteq> []" by simp
  from p show "strip u = u" by (simp only: strip_strip)
  show "\<forall>c\<in>set u. \<not> terminal c"
  proof
    fix c assume "c \<in> set u"
    with p(3) set_strip [of p] have "c \<in> set p" by auto
    with p(1) show "\<not> terminal c" by (rule re_split_pieces)
  qed
qed

text \<open>
  C4.  For every text \<open>T\<close>, every unit of \<open>segment T\<close> is non-empty, is its own trimmed
  form (so it is not empty after trimming) and contains no sentence-terminal character;
  and \<open>T\<close> is the units in their order with gaps before, between and after them, where the
  gaps consist of terminal punctuation and whitespace only and every gap between two units
  contains terminal punctuation: the text is split exactly at runs of \<open>.\<close>, \<open>!\<close>, \<open>?\<close>,
  blank pieces are dropped, and reading order is kept.
\<close>

theorem segment_reading_order:
  "(\<forall>u\<in>set (segment T). u \<noteq> [] \<and> strip u = u \<and> (\<forall>c\<in>set u. \<not> terminal c)) \<and>
   (\<exists>gaps. length gaps = Suc (length (segment T)) \<and> weave gaps (segment T) = T \<and>
      (\<forall>g\<in>set gaps. \<forall>c\<in>set g. terminal c \<or> is_space c) \<and>
      (\<forall>i. 0 < i \<and> i < length (segment T) \<longrightarrow> (\<exists>c\<in>set (gaps ! i). terminal c)))"
  using segment_units [of _ T] segment_woven [of T] by blast

theorem segment_reading_order_witness:
  "segment '' Hi there.  Bye?! '' = [''Hi there'', ''Bye''] \<and>
   strip ''Hi there'' = ''Hi there'' \<and> strip ''Bye'' = ''Bye'' \<and>
   (\<exists>gaps. length gaps = 3 \<and> weave gaps [''Hi there'', ''Bye''] = '' Hi there.  Bye?! '' \<and>
      (\<exists>c\<in>set (gaps ! 1). terminal c))"
proof -
  have e: "segment '' Hi there.  Bye?! '' = [''Hi there'', ''Bye'']"
    by code_simp
  from segment_reading_order [of "'' Hi there.  Bye?! ''"]
  have u: "\<forall>u\<in>set [''Hi there'', ''Bye'']. u \<noteq> [] \<and> strip u = u \<and> (\<forall>c\<in>set u. \<not> terminal c)"
    and "\<exists>gaps. length gaps = Suc (length [''Hi there'', ''Bye'']) \<and>
      weave gaps [''Hi there'', ''Bye''] = '' Hi there.  Bye?! '' \<and>
      (\<forall>g\<in>set gaps. \<forall>c\<in>set g. terminal c \<or> is_space c) \<and>
      (\<forall>i. 0 < i \<and> i < length [''Hi there'', ''Bye''] \<longrightarrow> (\<exists>c\<in>set (gaps ! i). terminal c))"
    unfolding e by blast+
  then obtain gaps where g: "length gaps = Suc (length [''Hi there'', ''Bye''])"
    "weave gaps [''Hi there'', ''Bye''] = '' Hi there.  Bye?! ''"
    "\<forall>i. 0 < i \<and> i < length [''Hi there'', ''Bye''] \<longrightarrow> (\<exists>c\<in>set (gaps ! i). terminal c)"
    by blast
  from g(3) have "\<exists>c\<in>set (gaps ! 1). terminal c" by simp
  moreover from g(1) have "length gaps = 3" by simp
  ultimately have "\<exists>gaps. length gaps = 3 \<and>
      weave gaps [''Hi there'', ''Bye''] = '' Hi there.  Bye?! '' \<and>
      (\<exists>c\<in>set (gaps ! 1). terminal c)" using g(2) by blast
  moreover from u have "strip ''Hi there'' = ''Hi there''" "strip ''Bye'' = ''Bye''" by simp_all
  ultimately show ?thesis using e by blast
qed

text \<open>
  C5.  A text without sentence-terminal punctuation yields no unit when it is empty or
  consists of whitespace only, and otherwise exactly one unit, the whole text trimmed.
\<close>

theorem segment_without_punctuation:
  assumes "\<forall>c\<in>set T. \<not> terminal c"
  shows "((\<forall>c\<in>set T. is_space c) \<longrightarrow> segment T = []) \<and>
         (\<not> (\<forall>c\<in>set T. is_space c) \<longrightarrow> segment T = [strip T])"
proof -
  from assms have "re_split T = [T]" by (rule re_split_plain)
  then have "segment T = (if strip T = [] then [] else [strip T])"
    by (simp add: segment_def)
  moreover have "strip T = [] \<longleftrightarrow> (\<forall>c\<in>set T. is_space c)" by (rule strip_Nil_iff)
  ultimately show ?thesis by auto
qed

theorem segment_without_punctuation_witness:
  "segment ''  a plain line '' = [''a plain line''] \<and> segment ''   '' = [] \<and> segment [] = []"
proof -
  have 1: "\<forall>c\<in>set ''  a plain line ''. \<not> terminal c" by (simp add: terminal_def)
  have 2: "\<forall>c\<in>set ''   ''. \<not> terminal c" by (simp add: terminal_def)
  have 3: "\<forall>c\<in>set []. \<not> terminal c" by simp
  have 4: "\<not> (\<forall>c\<in>set ''  a plain line ''. is_space c)" by (simp add: is_space_def)
  have 5: "\<forall>c\<in>set ''   ''. is_space c" by (simp add: is_space_def)
  have 6: "strip ''  a plain line '' = ''a plain line''" by (simp add: strip_def is_space_def)
  from segment_without_punctuation [OF 1] 4 6
  have a: "segment ''  a plain line '' = [''a plain line'']" by simp
  from segment_without_punctuation [OF 2] 5 have b: "segment ''   '' = []" by blast
  from segment_without_punctuation [OF 3] have c: "segment [] = []" by simp
  from a b c show ?thesis by blast
qed

section \<open>Bookmarks\<close>

text \<open>
  C7.  \<open>load_bookmarks\<close> returns a mapping in every state of the bookmark file (its two
  \<open>except\<close>/fall-through branches are values, nothing is raised): the empty mapping when
  the file is missing or cannot be parsed; and \<open>get_bookmark\<close> returns 0 for a document
  that the loaded mapping does not contain.
\<close>

theorem load_bookmarks_never_raises:
  "(bookmark_file r = Missing \<or> bookmark_file r = Corrupt \<longrightarrow> load_bookmarks r = Map.empty) \<and>
   (load_bookmarks r pdf_path = None \<longrightarrow> get_bookmark pdf_path r = 0)"
  by (auto simp: load_bookmarks_def get_bookmark_def)

theorem load_bookmarks_never_raises_witness:
  "load_bookmarks (new_reader Corrupt None (\<lambda>p. Unreadable [])) = Map.empty \<and>
   load_bookmarks (new_reader Missing None (\<lambda>p. Unreadable [])) = Map.empty \<and>
   get_bookmark ''book.pdf'' (new_reader (Holds [''other.pdf'' \<mapsto> 4]) None (\<lambda>p. Unreadable [])) = 0"
proof -
  have 1: "bookmark_file (new_reader Corrupt None (\<lambda>p. Unreadable [])) = Corrupt"
    and 2: "bookmark_file (new_reader Missing None (\<lambda>p. Unreadable [])) = Missing"
    and 3: "load_bookmarks (new_reader (Holds [''other.pdf'' \<mapsto> 4]) None (\<lambda>p. Unreadable []))
              ''book.pdf'' = None"
    by (simp_all add: new_reader_def load_bookmarks_def)
  from 1 load_bookmarks_never_raises [of "new_reader Corrupt None (\<lambda>p. Unreadable [])"]
  have a: "load_bookmarks (new_reader Corrupt None (\<lambda>p. Unreadable [])) = Map.empty" by blast
  from 2 load_bookmarks_never_raises [of "new_reader Missing None (\<lambda>p. Unreadable [])"]
  have b: "load_bookmarks (new_reader Missing None (\<lambda>p. Unreadable [])) = Map.empty" by blast
  from 3 load_bookmarks_never_raises
    [of "new_reader (Holds [''other.pdf'' \<mapsto> 4]) None (\<lambda>p. Unreadable [])" "''book.pdf''"]
  have c: "get_bookmark ''book.pdf''
      (new_reader (Holds [''other.pdf'' \<mapsto> 4]) None (\<lambda>p. Unreadable [])) = 0" by blast
  from a b c show ?thesis by blast
qed





section \<open>Text extraction\<close>

lemma get_page_in_range:
  "0 \<le> i \<Longrightarrow> i < int (length pages) \<Longrightarrow> get_page pages i = Inr (pages ! nat i)"
  by (simp add: get_page_def)

lemma extract_pages_text:
  assumes "extract_pages pages is acc = Inr body"
  shows "\<exists>ts. map (get_page pages) is = map (\<lambda>t. Inr (Page t)) ts \<and>
           body = acc @ concat (map (\<lambda>(i, t). marker i @ t) (zip is ts))"
  using assms
proof (induction "is" arbitrary: acc)
  case Nil
  then show ?case by simp
next
  case (Cons i "is")
  from Cons.prems obtain t where t: "get_page pages i = Inr (Page t)"
    and rest: "extract_pages pages is (acc @ marker i @ t) = Inr body"
    by (auto split: sum.splits page.splits)
  from Cons.IH [OF rest] obtain ts where
    ts: "map (get_page pages) is = map (\<lambda>t. Inr (Page t)) ts"
      "body = (acc @ marker i @ t) @ concat (map (\<lambda>(i, t). marker i @ t) (zip is ts))"
    by auto
  with t show ?case by (intro exI [of _ "t # ts"]) simp
qed

lemma pages_of_range:
  assumes "map (get_page pages) is = map (\<lambda>t. Inr (Page t)) ts"
    and "\<forall>i\<in>set is. 0 \<le> i \<and> i < int (length pages)"
  shows "map (\<lambda>i. pages ! nat i) is = map Page ts"
proof -
  from assms(2) have "map (get_page pages) is = map (\<lambda>i. Inr (pages ! nat i)) is"
    by (simp add: get_page_in_range)
  with assms(1) have "map (Inr :: page \<Rightarrow> string + page) (map (\<lambda>i. pages ! nat i) is) = map Inr (map Page ts)"
    by (simp add: comp_def)
  then show ?thesis by (simp only: inj_map_eq_map [OF inj_Inr])
qed

lemma extract_text_markers0:
  assumes "extract_text_from_pdf pdf_path start_page end_page r = ((Some body, total_pages), r')"
  shows "\<exists>pages ts. pdfs r pdf_path = Pdf pages \<and> total_pages = int (length pages) \<and> r' = r \<and>
     map (get_page pages)
       [start_page .. min (case end_page of None \<Rightarrow> total_pages | Some e \<Rightarrow> e) total_pages - 1]
       = map (\<lambda>t. Inr (Page t)) ts \<and>
     body = concat (map (\<lambda>(i, t). marker i @ t)
       (zip [start_page .. min (case end_page of None \<Rightarrow> total_pages | Some e \<Rightarrow> e) total_pages - 1] ts)) \<and>
     (0 \<le> start_page \<longrightarrow>
        map (\<lambda>i. pages ! nat i)
          [start_page .. min (case end_page of None \<Rightarrow> total_pages | Some e \<Rightarrow> e) total_pages - 1]
          = map Page ts)"
proof -
  from assms obtain pages where pages: "pdfs r pdf_path = Pdf pages"
    by (cases "pdfs r pdf_path") (simp_all add: extract_text_from_pdf_def)
  define stop where
    "stop = min (case end_page of None \<Rightarrow> int (length pages) | Some e \<Rightarrow> e) (int (length pages))"
  from assms pages have ex: "extract_pages pages [start_page .. stop - 1] [] = Inr body"
    and tot: "total_pages = int (length pages)" and r': "r' = r"
    unfolding stop_def
    by (auto simp: extract_text_from_pdf_def Let_def split: sum.splits)
  from extract_pages_text [OF ex] obtain ts where
    ts: "map (get_page pages) [start_page .. stop - 1] = map (\<lambda>t. Inr (Page t)) ts"
      "body = concat (map (\<lambda>(i, t). marker i @ t) (zip [start_page .. stop - 1] ts))"
    by auto
  have "map (\<lambda>i. pages ! nat i) [start_page .. stop - 1] = map Page ts" if "0 \<le> start_page"
  proof (rule pages_of_range [OF ts(1)])
    from that show "\<forall>i\<in>set [start_page .. stop - 1]. 0 \<le> i \<and> i < int (length pages)"
      unfolding stop_def by auto
  qed
  with ts pages tot r' show ?thesis unfolding stop_def by auto
qed

section \<open>Playback\<close>

lemma trace_print [simp]: "trace (print line r) = trace r"
  by (simp add: print_def)

lemma trace_toggle_pause [simp]: "trace (toggle_pause r) = trace r"
  by (simp add: toggle_pause_def)

lemma trace_save_bookmark [simp]: "trace (save_bookmark pdf_path page_num r) = trace r"
  by (simp add: save_bookmark_def split: option.splits)

lemma trace_prints [simp]: "trace (foldl (\<lambda>r line. print line r) r ls) = trace r"
  by (induction ls arbitrary: r) simp_all

lemma trace_announce [simp]: "trace (announce pdf_path start_page r) = trace r"
  by (simp add: announce_def)

lemma trace_extract [simp]:
  "trace (snd (extract_text_from_pdf pdf_path start_page end_page r)) = trace r"
  by (simp add: extract_text_from_pdf_def Let_def split: pdf_file.splits sum.splits)

lemma trace_join [simp]: "trace (join k r) = trace r @ [Join k]"
  by (simp add: join_def)

lemma trace_start [simp]: "trace (start k text r) = trace r @ [Start k text]"
  by (simp add: start_def)

lemma orderly_append:
  "orderly live (xs @ ys) \<longleftrightarrow> orderly live xs \<and> orderly (foldl after live xs) ys"
proof (induction xs arbitrary: live)
  case Nil
  then show ?case by simp
next
  case (Cons a xs)
  show ?case
  proof (cases a)
    case (Start k t)
    show ?thesis unfolding Start by (simp add: Cons.IH cong: conj_cong)
  next
    case (Join k)
    show ?thesis unfolding Join by (simp add: Cons.IH)
  qed
qed

lemma live_tasks_snoc [simp]: "live_tasks (tr @ [a]) = after (live_tasks tr) a"
  by (simp add: live_tasks_def)

lemma orderly_snoc_Join [simp]: "orderly [] (tr @ [Join k]) = orderly [] tr"
  by (simp add: orderly_append)

lemma orderly_snoc_Start [simp]:
  "orderly [] (tr @ [Start k text]) \<longleftrightarrow> orderly [] tr \<and> live_tasks tr = []"
  by (auto simp add: orderly_append live_tasks_def)

lemma removeAll_only: "set live \<subseteq> {k} \<Longrightarrow> removeAll k live = []"
  by (induction live) auto


lemma handle_p:
  "lower (strip l) = ''p'' \<Longrightarrow>
   handle_controls k path sp tp (Line l # ins) (True # obs) r =
   handle_controls k path sp tp ins obs (toggle_pause r)"
  by (simp add: handle_controls.simps(5) Let_def)

lemma handle_s:
  "lower (strip l) = ''s'' \<Longrightarrow>
   handle_controls k path sp tp (Line l # ins) (True # obs) r =
   (Returned, ins, obs, join k (print ''Stopped'' (r\<lparr>stopped := True\<rparr>)))"
  by (simp add: handle_controls.simps(5) Let_def)

lemma handle_b:
  "lower (strip l) = ''b'' \<Longrightarrow>
   handle_controls k path sp tp (Line l # ins) (True # obs) r =
   handle_controls k path sp tp ins obs (save_bookmark path (current_page r) r)"
  by (simp add: handle_controls.simps(5) Let_def)

lemma handle_n:
  "lower (strip l) = ''n'' \<Longrightarrow>
   handle_controls k path sp tp (Line l # ins) (True # obs) r =
   leave k (read_pdf path (min (sp + 5) (tp - 1)) ins obs (join k (r\<lparr>stopped := True\<rparr>)))"
  by (simp add: handle_controls.simps(5) Let_def)

lemma handle_j_end:
  "lower (strip l) = ''j'' \<Longrightarrow>
   handle_controls k path sp tp [Line l] (True # obs) r =
   (Waiting, [], obs, print ''Enter page number: '' r)"
  by (simp add: handle_controls.simps(5) Let_def)

lemma handle_j_eof:
  "lower (strip l) = ''j'' \<Longrightarrow>
   handle_controls k path sp tp (Line l # EOF # ins) (True # obs) r =
   handle_controls k path sp tp ins obs (print ''Enter page number: '' r)"
  by (simp add: handle_controls.simps(5) Let_def)

lemma handle_j_not_a_number:
  "lower (strip l) = ''j'' \<Longrightarrow> py_int (strip page_input) = None \<Longrightarrow>
   handle_controls k path sp tp (Line l # Line page_input # ins) (True # obs) r =
   handle_controls k path sp tp ins obs
     (print ''Invalid input. Please enter a number.'' (print ''Enter page number: '' r))"
  by (simp add: handle_controls.simps(5) Let_def)

lemma handle_j_out_of_range:
  "lower (strip l) = ''j'' \<Longrightarrow> py_int (strip page_input) = Some n \<Longrightarrow>
   \<not> (0 \<le> n - 1 \<and> n - 1 < tp) \<Longrightarrow>
   handle_controls k path sp tp (Line l # Line page_input # ins) (True # obs) r =
   handle_controls k path sp tp ins obs
     (print (''Invalid page. Must be between 1 and '' @ str_int tp)
        (print ''Enter page number: '' r))"
  by (auto simp add: handle_controls.simps(5) Let_def)

lemma handle_j_jump:
  "lower (strip l) = ''j'' \<Longrightarrow> py_int (strip page_input) = Some n \<Longrightarrow>
   0 \<le> n - 1 \<and> n - 1 < tp \<Longrightarrow>
   handle_controls k path sp tp (Line l # Line page_input # ins) (True # obs) r =
   leave k (read_pdf path (n - 1) ins obs
     (join k ((print ''Enter page number: '' r)\<lparr>stopped := True\<rparr>)))"
  by (simp add: handle_controls.simps(5) Let_def)

lemma handle_other:
  "lower (strip l) \<notin> {''p'', ''s'', ''b'', ''n'', ''j''} \<Longrightarrow>
   handle_controls k path sp tp (Line l # ins) (True # obs) r =
   handle_controls k path sp tp ins obs r"
  by (simp add: handle_controls.simps(5) Let_def)

lemma leave_result:
  assumes "leave k res = (c, ins', obs', r')"
  shows "\<exists>r''. res = (c, ins', obs', r'') \<and> (c = Returned \<longrightarrow> r' = join k r'') \<and>
           (c = Waiting \<longrightarrow> r' = r'')"
proof -
  obtain c0 i0 o0 r0 where res: "res = (c0, i0, o0, r0)" by (cases res) auto
  from assms show ?thesis unfolding res by (cases c0) (simp_all add: leave_def)
qed

lemma read_pdf_orderly:
  "read_pdf pdf_path start_page ins obs r = (c, ins', obs', r') \<Longrightarrow>
     orderly [] (trace r) \<Longrightarrow> live_tasks (trace r) = [] \<Longrightarrow>
     orderly [] (trace r') \<and> prefix (trace r) (trace r') \<and>
     (c = Returned \<longrightarrow> live_tasks (trace r') = [])"
  and handle_controls_orderly: "handle_controls read_thread pdf_path start_page total_pages ins obs r = (c, ins', obs', r') \<Longrightarrow>
     orderly [] (trace r) \<Longrightarrow> set (live_tasks (trace r)) \<subseteq> {read_thread} \<Longrightarrow>
     orderly [] (trace r') \<and> prefix (trace r) (trace r') \<and>
     (c = Returned \<longrightarrow> live_tasks (trace r') = [])"
proof (induction pdf_path start_page ins obs r and read_thread pdf_path start_page total_pages ins obs r
    arbitrary: c ins' obs' r' and c ins' obs' r' rule: read_pdf_handle_controls.induct)
  case (1 pdf_path start_page ins obs r)
  let ?a = "announce pdf_path start_page r"
  obtain body total_pages r1 where
    ex: "extract_text_from_pdf pdf_path start_page None ?a = ((body, total_pages), r1)"
    by (cases "extract_text_from_pdf pdf_path start_page None ?a") auto
  then have "trace (snd (extract_text_from_pdf pdf_path start_page None ?a)) = trace r1"
    by simp
  then have tr1: "trace r1 = trace r" by simp
  show ?case
  proof (cases "body = None \<or> body = Some []")
    case True
    with "1.prems"(1) ex have "c = Returned" "r' = r1"
      by (auto simp: read_pdf.simps)
    with tr1 "1.prems"(2,3) show ?thesis by simp
  next
    case False
    then obtain t where t: "body = Some t" "t \<noteq> []" by auto
    let ?k = "length (trace r1)"
    from "1.prems"(1) ex t
    have run: "handle_controls ?k pdf_path start_page total_pages ins obs (start ?k t r1)
        = (c, ins', obs', r')"
      by (simp add: read_pdf.simps)
    from "1.prems"(2,3) tr1 have pre: "orderly [] (trace (start ?k t r1))"
      "set (live_tasks (trace (start ?k t r1))) \<subseteq> {?k}"
      by simp_all
    from "1.IH" [OF ex [symmetric] refl t(1) t(2) run pre]
    have "orderly [] (trace r')" "prefix (trace (start ?k t r1)) (trace r')"
      "c = Returned \<longrightarrow> live_tasks (trace r') = []"
      by blast+
    moreover from this(2) tr1 have "prefix (trace r) (trace r')"
      by (simp add: append_prefixD)
    ultimately show ?thesis by blast
  qed
next
  case (2 read_thread pdf_path start_page total_pages ins r)
  then show ?case by (simp add: handle_controls.simps(1))
next
  case (3 read_thread pdf_path start_page total_pages ins obs r)
  from "3.prems"(1) have "c = Returned" "r' = join read_thread r"
    by (simp_all add: handle_controls.simps(2))
  with "3.prems"(2,3) show ?case by (simp add: removeAll_only)
next
  case (4 read_thread pdf_path start_page total_pages obs r)
  then show ?case by (simp add: handle_controls.simps(3))
next
  case (5 read_thread pdf_path start_page total_pages ins obs r)
  from "5.prems"(1)
  have "handle_controls read_thread pdf_path start_page total_pages ins obs r = (c, ins', obs', r')"
    by (simp add: handle_controls.simps(4))
  from "5.IH" [OF this "5.prems"(2,3)] show ?case .
next
  case (6 read_thread pdf_path start_page total_pages l ins obs r)
  note pre = "6.prems"(2,3)
  let ?cmd = "lower (strip l)"
  let ?run = "handle_controls read_thread pdf_path start_page total_pages"
  have restart: "orderly [] (trace r') \<and> prefix (trace r) (trace r') \<and>
      (c = Returned \<longrightarrow> live_tasks (trace r') = [])"
    if lv: "leave read_thread (read_pdf pdf_path pg is obs r0) = (c, ins', obs', r')"
      and r0: "trace r0 = trace r @ [Join read_thread]"
      and ih: "\<And>c ins' obs' r'. read_pdf pdf_path pg is obs r0 = (c, ins', obs', r') \<Longrightarrow>
          orderly [] (trace r0) \<Longrightarrow> live_tasks (trace r0) = [] \<Longrightarrow>
          orderly [] (trace r') \<and> prefix (trace r0) (trace r') \<and>
          (c = Returned \<longrightarrow> live_tasks (trace r') = [])"
    for pg "is" r0
  proof -
    from leave_result [OF lv] obtain r'' where
      res: "read_pdf pdf_path pg is obs r0 = (c, ins', obs', r'')"
      and ret: "c = Returned \<longrightarrow> r' = join read_thread r''"
      and wait: "c = Waiting \<longrightarrow> r' = r''"
      by blast
    from pre r0 have "orderly [] (trace r0)" "live_tasks (trace r0) = []"
      by (simp_all add: removeAll_only)
    from ih [OF res this] have post: "orderly [] (trace r'')" "prefix (trace r0) (trace r'')"
      "c = Returned \<longrightarrow> live_tasks (trace r'') = []"
      by blast+
    from post(2) r0 have pf: "prefix (trace r) (trace r'')" by (simp add: append_prefixD)
    show ?thesis
    proof (cases c)
      case Returned
      with ret post pf show ?thesis by (simp add: prefix_order.trans)
    next
      case Waiting
      with wait post pf show ?thesis by simp
    qed
  qed
  consider (p) "?cmd = ''p''" | (s) "?cmd \<noteq> ''p''" "?cmd = ''s''"
    | (b) "?cmd \<noteq> ''p''" "?cmd \<noteq> ''s''" "?cmd = ''b''"
    | (n) "?cmd \<noteq> ''p''" "?cmd \<noteq> ''s''" "?cmd \<noteq> ''b''" "?cmd = ''n''"
    | (j) "?cmd \<noteq> ''p''" "?cmd \<noteq> ''s''" "?cmd \<noteq> ''b''" "?cmd \<noteq> ''n''" "?cmd = ''j''"
    | (other) "?cmd \<noteq> ''p''" "?cmd \<noteq> ''s''" "?cmd \<noteq> ''b''" "?cmd \<noteq> ''n''" "?cmd \<noteq> ''j''"
    by blast
  then show ?case
  proof cases
    case p
    with "6.prems"(1) have "?run ins obs (toggle_pause r) = (c, ins', obs', r')"
      by (simp add: handle_p)
    from "6.IH"(1) [OF refl p this] pre show ?thesis by simp
  next
    case s
    with "6.prems"(1) have "c = Returned"
      "r' = join read_thread (print ''Stopped'' (r\<lparr>stopped := True\<rparr>))"
      by (simp_all add: handle_s)
    with pre show ?thesis by (simp add: removeAll_only)
  next
    case b
    with "6.prems"(1)
    have "?run ins obs (save_bookmark pdf_path (current_page r) r) = (c, ins', obs', r')"
      by (simp add: handle_b)
    from "6.IH"(2) [OF refl b this] pre show ?thesis by simp
  next
    case n
    with "6.prems"(1)
    have "leave read_thread (read_pdf pdf_path (min (start_page + 5) (total_pages - 1)) ins obs
        (join read_thread (r\<lparr>stopped := True\<rparr>))) = (c, ins', obs', r')"
      by (simp add: handle_n)
    then show ?thesis
      by (rule restart) (simp, rule "6.IH"(3) [OF refl n])
  next
    case j
    show ?thesis
    proof (cases ins)
      case Nil
      with j "6.prems"(1) have "c = Waiting" "r' = print ''Enter page number: '' r"
        by (simp_all add: handle_j_end)
      with pre show ?thesis by simp
    next
      case (Cons i rest)
      show ?thesis
      proof (cases i)
        case EOF
        with j Cons "6.prems"(1)
        have "?run rest obs (print ''Enter page number: '' r) = (c, ins', obs', r')"
          by (simp add: handle_j_eof)
        from "6.IH"(7) [OF refl j Cons EOF this] pre show ?thesis by simp
      next
        case (Line page_input)
        show ?thesis
        proof (cases "py_int (strip page_input)")
          case None
          with j Cons Line "6.prems"(1)
          have "?run rest obs (print ''Invalid input. Please enter a number.''
              (print ''Enter page number: '' r)) = (c, ins', obs', r')"
            by (simp add: handle_j_not_a_number)
          from "6.IH"(4) [OF refl j Cons Line None this] pre show ?thesis by simp
        next
          case (Some m)
          show ?thesis
          proof (cases "0 \<le> m - 1 \<and> m - 1 < total_pages")
            case True
            with j Cons Line Some "6.prems"(1)
            have "leave read_thread (read_pdf pdf_path (m - 1) rest obs
                (join read_thread ((print ''Enter page number: '' r)\<lparr>stopped := True\<rparr>)))
                = (c, ins', obs', r')"
              by (simp add: handle_j_jump)
            then show ?thesis
              by (rule restart) (simp, rule "6.IH"(5) [OF refl j Cons Line Some refl True])
          next
            case False
            with j Cons Line Some "6.prems"(1)
            have "?run rest obs (print (''Invalid page. Must be between 1 and ''
                @ str_int total_pages) (print ''Enter page number: '' r)) = (c, ins', obs', r')"
              by (simp add: handle_j_out_of_range)
            from "6.IH"(6) [OF refl j Cons Line Some refl False this] pre show ?thesis by simp
          qed
        qed
      qed
    qed
  next
    case other
    with "6.prems"(1) have "?run ins obs r = (c, ins', obs', r')"
      by (simp add: handle_other)
    from "6.IH"(8) [OF refl other this pre] show ?thesis .
  qed
qed

lemma orderly_prefix: "orderly live tr \<Longrightarrow> prefix p tr \<Longrightarrow> orderly live p"
  by (auto simp: prefix_def orderly_append)

lemma orderly_one_live: "orderly [] tr \<Longrightarrow> length (live_tasks tr) \<le> 1"
proof (induction tr rule: rev_induct)
  case Nil
  then show ?case by (simp add: live_tasks_def)
next
  case (snoc a tr)
  show ?case
  proof (cases a)
    case (Start k t)
    with snoc.prems show ?thesis by simp
  next
    case (Join k)
    with snoc.prems have "orderly [] tr" by simp
    then have "length (live_tasks tr) \<le> 1" by (rule snoc.IH)
    moreover have "length (removeAll k (live_tasks tr)) \<le> length (live_tasks tr)"
      by (simp add: removeAll_filter_not_eq)
    ultimately have "length (removeAll k (live_tasks tr)) \<le> 1" by (rule order.trans [rotated])
    then show ?thesis using Join by simp
  qed
qed

text \<open>
  C2.  \<open>read_pdf\<close> is called on a reader that has started no thread yet.  Whatever the
  lines typed and the observations of \<open>is_alive()\<close> are, and whether the call has
  returned or is still waiting for input: at every moment of the run (every prefix \<open>p\<close>
  of the thread actions) at most one narration thread may be running, and at every start
  of a thread none may be running, since every thread started before has been joined.
  The restarts of the commands \<open>n\<close> and \<open>j\<close> are the nested calls of \<open>read_pdf\<close>; after
  \<open>s\<close> the thread is joined and nothing is started.
\<close>

theorem one_live_task:
  assumes "read_pdf pdf_path start_page ins obs r = (c, ins', obs', r')"
    and "trace r = []"
  shows "(\<forall>p. prefix p (trace r') \<longrightarrow> length (live_tasks p) \<le> 1) \<and>
         (\<forall>p k t. prefix (p @ [Start k t]) (trace r') \<longrightarrow> live_tasks p = [])"
proof -
  from assms(2) have "orderly [] (trace r)" "live_tasks (trace r) = []"
    by (simp_all add: live_tasks_def)
  with assms(1) have ord: "orderly [] (trace r')"
    using read_pdf_orderly by blast
  show ?thesis
  proof (intro conjI allI impI)
    fix p assume "prefix p (trace r')"
    with ord have "orderly [] p" by (rule orderly_prefix)
    then show "length (live_tasks p) \<le> 1" by (rule orderly_one_live)
  next
    fix p k t assume "prefix (p @ [Start k t]) (trace r')"
    with ord have "orderly [] (p @ [Start k t])" by (rule orderly_prefix)
    then show "live_tasks p = []" by simp
  qed
qed


theorem one_live_task_witness:
  "length (live_tasks [Start 0 (marker 0 @ ''One. Two.'' @ marker 1 @ ''Three.'')]) \<le> 1 \<and>
   live_tasks [Start 0 (marker 0 @ ''One. Two.'' @ marker 1 @ ''Three.''), Join 0] = []"
proof -
  let ?r = "new_reader Missing None (\<lambda>p. Pdf [Page ''One. Two.'', Page ''Three.''])"
  let ?res = "read_pdf ''a.pdf'' 0 [Line ''n'', Line ''s''] [True, True] ?r"
  let ?t0 = "marker 0 @ ''One. Two.'' @ marker 1 @ ''Three.''"
  have run: "?res = (fst ?res, fst (snd ?res), fst (snd (snd ?res)), snd (snd (snd ?res)))"
    by simp
  have fresh: "trace ?r = []" by (simp add: new_reader_def)
  have tr: "trace (snd (snd (snd ?res))) =
      [Start 0 ?t0, Join 0, Start 2 (marker 1 @ ''Three.''), Join 2, Join 0]"
    by code_simp
  have p1: "prefix [Start 0 ?t0] (trace (snd (snd (snd ?res))))"
    unfolding tr by simp
  have p2: "prefix ([Start 0 ?t0, Join 0] @ [Start 2 (marker 1 @ ''Three.'')])
      (trace (snd (snd (snd ?res))))"
    unfolding tr by simp
  from one_live_task [OF run fresh] p1 p2 show ?thesis by blast
qed


text \<open>
  C8.  In the command loop with the narration thread alive, the command \<open>j\<close> followed by
  a page entry that is not a number, or by a number whose page index \<open>n - 1\<close> is not in
  \<open>0 \<le> n - 1 < total_pages\<close>, prints the prompt and the error message and goes on with
  the loop for the same thread, with the rest of the input and a reader in which only
  \<open>printed\<close> has changed: \<open>stopped\<close> is not set, nothing is joined or started, the
  position and the bookmarks are as before.
\<close>

theorem jump_rejected:
  assumes "lower (strip l) = ''j''"
    and "case py_int (strip page_input) of
           None \<Rightarrow> msg = ''Invalid input. Please enter a number.''
         | Some n \<Rightarrow> \<not> (0 \<le> n - 1 \<and> n - 1 < total_pages) \<and>
             msg = ''Invalid page. Must be between 1 and '' @ str_int total_pages"
  shows "handle_controls read_thread pdf_path start_page total_pages
           (Line l # Line page_input # ins) (True # obs) r =
         handle_controls read_thread pdf_path start_page total_pages ins obs
           (r\<lparr>printed := printed r @ [''Enter page number: '', msg]\<rparr>)"
proof (cases "py_int (strip page_input)")
  case None
  with assms show ?thesis by (simp add: handle_j_not_a_number print_def)
next
  case (Some n)
  with assms have "\<not> (0 \<le> n - 1 \<and> n - 1 < total_pages)"
    and "msg = ''Invalid page. Must be between 1 and '' @ str_int total_pages"
    by simp_all
  with assms(1) Some show ?thesis by (simp add: handle_j_out_of_range print_def)
qed

theorem jump_rejected_witness:
  "handle_controls 0 ''a.pdf'' 0 3 [Line ''J'', Line ''4''] [True]
     (new_reader Missing None (\<lambda>p. Unreadable [])) =
   (Waiting, [], [],
    (new_reader Missing None (\<lambda>p. Unreadable []))
      \<lparr>printed := [''Enter page number: '', ''Invalid page. Must be between 1 and 3'']\<rparr>) \<and>
   handle_controls 0 ''a.pdf'' 0 3 [Line ''j'', Line ''0''] [True]
     (new_reader Missing None (\<lambda>p. Unreadable [])) =
   (Waiting, [], [],
    (new_reader Missing None (\<lambda>p. Unreadable []))
      \<lparr>printed := [''Enter page number: '', ''Invalid page. Must be between 1 and 3'']\<rparr>) \<and>
   handle_controls 0 ''a.pdf'' 0 3 [Line ''j'', Line ''two''] [True]
     (new_reader Missing None (\<lambda>p. Unreadable [])) =
   (Waiting, [], [],
    (new_reader Missing None (\<lambda>p. Unreadable []))
      \<lparr>printed := [''Enter page number: '', ''Invalid input. Please enter a number.'']\<rparr>)"
proof -
  let ?r = "new_reader Missing None (\<lambda>p. Unreadable [])"
  have j: "lower (strip ''J'') = ''j''" "lower (strip ''j'') = ''j''" by code_simp+
  have n: "py_int (strip ''4'') = Some 4" "py_int (strip ''0'') = Some 0"
    "py_int (strip ''two'') = None" by code_simp+
  have s: "str_int 3 = ''3''" by code_simp
  have p: "printed ?r = []" by (simp add: new_reader_def)
  have a: "case py_int (strip ''4'') of
           None \<Rightarrow> ''Invalid page. Must be between 1 and 3'' = ''Invalid input. Please enter a number.''
         | Some n \<Rightarrow> \<not> (0 \<le> n - 1 \<and> n - 1 < 3) \<and>
             ''Invalid page. Must be between 1 and 3'' = ''Invalid page. Must be between 1 and '' @ str_int 3"
    unfolding n s by simp
  have b: "case py_int (strip ''0'') of
           None \<Rightarrow> ''Invalid page. Must be between 1 and 3'' = ''Invalid input. Please enter a number.''
         | Some n \<Rightarrow> \<not> (0 \<le> n - 1 \<and> n - 1 < 3) \<and>
             ''Invalid page. Must be between 1 and 3'' = ''Invalid page. Must be between 1 and '' @ str_int 3"
    unfolding n s by simp
  have c: "case py_int (strip ''two'') of
           None \<Rightarrow> ''Invalid input. Please enter a number.'' = ''Invalid input. Please enter a number.''
         | Some n \<Rightarrow> \<not> (0 \<le> n - 1 \<and> n - 1 < 3) \<and>
             ''Invalid input. Please enter a number.'' = ''Invalid page. Must be between 1 and '' @ str_int 3"
    unfolding n by simp
  from jump_rejected [OF j(1) a, of 0 "''a.pdf''" 0 "[]" "[]" ?r]
    jump_rejected [OF j(2) b, of 0 "''a.pdf''" 0 "[]" "[]" ?r]
    jump_rejected [OF j(2) c, of 0 "''a.pdf''" 0 "[]" "[]" ?r] p
  show ?thesis by (simp add: handle_controls.simps(1))
qed

lemma pdfs_announce [simp]: "pdfs (announce pdf_path start_page r) = pdfs r"
proof -
  have "pdfs (foldl (\<lambda>r line. print line r) r0 ls) = pdfs r0" for r0 ls
    by (induction ls arbitrary: r0) (simp_all add: print_def)
  then show ?thesis by (simp add: announce_def)
qed

text \<open>
  C9.  When the document cannot be opened or parsed, or \<open>extract_text()\<close> of a page in
  the range raises, \<open>extract_text_from_pdf\<close> returns \<open>(None, 0)\<close>, and \<open>read_pdf\<close>
  returns normally after printing the error: it starts no narration thread and reads no
  input (the scripts are given back untouched).
\<close>

theorem extraction_failure:
  assumes "pdfs r pdf_path = Unreadable e \<or>
     (\<exists>pages. pdfs r pdf_path = Pdf pages \<and>
        extract_pages pages [start_page .. int (length pages) - 1] [] = Inl e)"
  shows "fst (extract_text_from_pdf pdf_path start_page None r) = (None, 0) \<and>
     (\<exists>r'. read_pdf pdf_path start_page ins obs r = (Returned, ins, obs, r') \<and>
        trace r' = trace r \<and> last (printed r') = ''Error reading PDF: '' @ e)"
proof -
  have ex: "extract_text_from_pdf pdf_path start_page None r0 =
      ((None, 0), print (''Error reading PDF: '' @ e) r0)" if "pdfs r0 = pdfs r" for r0
    using assms that by (auto simp: extract_text_from_pdf_def)
  let ?a = "announce pdf_path start_page r"
  have "read_pdf pdf_path start_page ins obs r =
      (Returned, ins, obs, print (''Error reading PDF: '' @ e) ?a)"
    by (simp add: read_pdf.simps ex)
  moreover have "trace (print (''Error reading PDF: '' @ e) ?a) = trace r" by simp
  moreover have "last (printed (print (''Error reading PDF: '' @ e) ?a)) = ''Error reading PDF: '' @ e"
    by (simp add: print_def)
  ultimately show ?thesis using ex [of r] by simp
qed

theorem extraction_failure_witness:
  "fst (extract_text_from_pdf ''gone.pdf'' 0 None
      (new_reader Missing None (\<lambda>p. Unreadable ''No such file''))) = (None, 0) \<and>
   (\<exists>r'. read_pdf ''gone.pdf'' 0 [Line ''p''] [True]
       (new_reader Missing None (\<lambda>p. Unreadable ''No such file''))
       = (Returned, [Line ''p''], [True], r') \<and>
      trace r' = [] \<and> last (printed r') = ''Error reading PDF: No such file'')"
proof -
  let ?r = "new_reader Missing None (\<lambda>p. Unreadable ''No such file'')"
  have u: "pdfs ?r ''gone.pdf'' = Unreadable ''No such file'' \<or>
     (\<exists>pages. pdfs ?r ''gone.pdf'' = Pdf pages \<and>
        extract_pages pages [0 .. int (length pages) - 1] [] = Inl ''No such file'')"
    by (simp add: new_reader_def)
  have t: "trace ?r = []" by (simp add: new_reader_def)
  from extraction_failure [OF u, of "[Line ''p'']" "[True]"] t show ?thesis by simp
qed


lemma extract_only_pdfs:
  "pdfs r0 = pdfs r \<Longrightarrow>
   fst (extract_text_from_pdf pdf_path start_page end_page r0) =
   fst (extract_text_from_pdf pdf_path start_page end_page r)"
  by (simp add: extract_text_from_pdf_def Let_def split: pdf_file.splits sum.splits)

lemma extract_Some_reader:
  "fst (extract_text_from_pdf pdf_path start_page end_page r) = (Some body, n) \<Longrightarrow>
   snd (extract_text_from_pdf pdf_path start_page end_page r) = r"
  by (auto simp add: extract_text_from_pdf_def Let_def split: pdf_file.splits sum.splits)

lemma digit_char_code:
  assumes "d < 10"
  shows "of_char (digit_char d) = (48 + d :: nat)" and "digit_char d \<in> set ''0123456789''"
    and "digit_char d = CHR ''0'' \<longleftrightarrow> d = 0"
proof -
  from assms have "d \<in> {0, 1, 2, 3, 4, 5, 6, 7, 8, 9}" by auto
  then show "of_char (digit_char d) = (48 + d :: nat)"
    and "digit_char d \<in> set ''0123456789''" and "digit_char d = CHR ''0'' \<longleftrightarrow> d = 0"
    by (auto simp: digit_char_def)
qed

lemma digits_decimal:
  "foldl (\<lambda>a c. 10 * a + (of_char c - 48)) (0::nat) (digits n) = n \<and>
   set (digits n) \<subseteq> set ''0123456789'' \<and> digits n \<noteq> [] \<and>
   (hd (digits n) = CHR ''0'' \<longrightarrow> n = 0)"
proof (induction n rule: digits.induct)
  case (1 n)
  show ?case
  proof (cases "n < 10")
    case True
    then have "digits n = [digit_char n]" by (subst digits.simps) simp
    with digit_char_code [OF True] show ?thesis by simp
  next
    case False
    then have d: "digits n = digits (n div 10) @ [digit_char (n mod 10)]"
      by (subst digits.simps) simp
    have m: "n mod 10 < 10" by simp
    from False have pos: "n div 10 \<noteq> 0" by simp
    from "1.IH" [OF False] have ih:
      "foldl (\<lambda>a c. 10 * a + (of_char c - 48)) (0::nat) (digits (n div 10)) = n div 10"
      "set (digits (n div 10)) \<subseteq> set ''0123456789''" "digits (n div 10) \<noteq> []"
      "hd (digits (n div 10)) = CHR ''0'' \<longrightarrow> n div 10 = 0"
      by blast+
    from ih(1) digit_char_code(1) [OF m]
    have "foldl (\<lambda>a c. 10 * a + (of_char c - 48)) (0::nat) (digits n) = 10 * (n div 10) + n mod 10"
      unfolding d by simp
    then have 1: "foldl (\<lambda>a c. 10 * a + (of_char c - 48)) (0::nat) (digits n) = n" by simp
    from ih(2) digit_char_code(2) [OF m] have 2: "set (digits n) \<subseteq> set ''0123456789''"
      unfolding d by simp
    from ih(3) have 3: "digits n \<noteq> []" "hd (digits n) = hd (digits (n div 10))"
      unfolding d by simp_all
    with ih(4) pos have 4: "hd (digits n) \<noteq> CHR ''0''" by simp
    from 1 2 3(1) 4 show ?thesis by blast
  qed
qed

lemma str_int_decimal:
  assumes "0 \<le> N"
  shows "foldl (\<lambda>a c. 10 * a + (of_char c - 48)) (0::nat) (str_int N) = nat N"
    and "set (str_int N) \<subseteq> set ''0123456789''" and "str_int N \<noteq> []"
    and "hd (str_int N) = CHR ''0'' \<longrightarrow> N = 0"
  using assms digits_decimal [of "nat N"] by (auto simp add: str_int_def)


text \<open>
  C10.  When extraction succeeds, \<open>pdf_reader.pages[i]\<close> has a text for every page number
  \<open>i\<close> of \<open>range(start_page, min(end_page, total_pages))\<close>, and the returned text is the
  concatenation, in this order, of a newline, \<open>--- Page N ---\<close> and a newline, followed
  by that text, where \<open>N\<close> is \<open>i + 1\<close> in decimal (digits only, of that value, without a
  leading zero); for \<open>start_page \<ge> 0\<close> these are the pages with the indices \<open>i\<close>.  When
  \<open>read_pdf\<close> extracts this text (to the end of the document) and it is not empty, the
  first thread it starts narrates exactly this text, markers included.
\<close>

theorem extracted_text_has_markers:
  assumes "fst (extract_text_from_pdf pdf_path start_page end_page r) = (Some body, total_pages)"
  shows "(\<exists>pages ts. pdfs r pdf_path = Pdf pages \<and> total_pages = int (length pages) \<and>
      map (get_page pages)
        [start_page .. min (case end_page of None \<Rightarrow> total_pages | Some e \<Rightarrow> e) total_pages - 1]
        = map (\<lambda>t. Inr (Page t)) ts \<and>
      body = concat (map (\<lambda>(i, t). CHR 0x0A # ''--- Page '' @ str_int (i + 1) @ '' ---'' @ CHR 0x0A # t)
        (zip [start_page .. min (case end_page of None \<Rightarrow> total_pages | Some e \<Rightarrow> e) total_pages - 1]
           ts)) \<and>
      (0 \<le> start_page \<longrightarrow>
         map (\<lambda>i. pages ! nat i)
           [start_page .. min (case end_page of None \<Rightarrow> total_pages | Some e \<Rightarrow> e) total_pages - 1]
           = map Page ts)) \<and>
    (\<forall>N\<ge>0. str_int N \<noteq> [] \<and> set (str_int N) \<subseteq> set ''0123456789'' \<and>
       foldl (\<lambda>a c. 10 * a + (of_char c - 48)) (0::nat) (str_int N) = nat N \<and>
       (hd (str_int N) = CHR ''0'' \<longrightarrow> N = 0)) \<and>
    (end_page = None \<and> body \<noteq> [] \<and> trace r = [] \<longrightarrow>
      (\<forall>ins obs. prefix [Start 0 body]
         (trace (snd (snd (snd (read_pdf pdf_path start_page ins obs r)))))))"
proof (intro conjI impI allI)
  from assms have "extract_text_from_pdf pdf_path start_page end_page r =
      ((Some body, total_pages), snd (extract_text_from_pdf pdf_path start_page end_page r))"
    by (simp add: prod_eq_iff)
  moreover have "(\<lambda>(i, t). marker i @ t) =
      (\<lambda>(i, t). CHR 0x0A # ''--- Page '' @ str_int (i + 1) @ '' ---'' @ CHR 0x0A # t)"
    by (simp add: marker_def fun_eq_iff)
  ultimately show "\<exists>pages ts. pdfs r pdf_path = Pdf pages \<and> total_pages = int (length pages) \<and>
      map (get_page pages)
        [start_page .. min (case end_page of None \<Rightarrow> total_pages | Some e \<Rightarrow> e) total_pages - 1]
        = map (\<lambda>t. Inr (Page t)) ts \<and>
      body = concat (map (\<lambda>(i, t). CHR 0x0A # ''--- Page '' @ str_int (i + 1) @ '' ---'' @ CHR 0x0A # t)
        (zip [start_page .. min (case end_page of None \<Rightarrow> total_pages | Some e \<Rightarrow> e) total_pages - 1]
           ts)) \<and>
      (0 \<le> start_page \<longrightarrow>
         map (\<lambda>i. pages ! nat i)
           [start_page .. min (case end_page of None \<Rightarrow> total_pages | Some e \<Rightarrow> e) total_pages - 1]
           = map Page ts)"
    using extract_text_markers0 [of pdf_path start_page end_page r body total_pages]
    by (simp only:) blast
next
  fix N :: int assume "0 \<le> N"
  then show "str_int N \<noteq> []" "set (str_int N) \<subseteq> set ''0123456789''"
    "foldl (\<lambda>a c. 10 * a + (of_char c - 48)) (0::nat) (str_int N) = nat N"
    by (rule str_int_decimal)+
  assume "hd (str_int N) = CHR ''0''"
  with str_int_decimal(4) [OF \<open>0 \<le> N\<close>] show "N = 0" by blast
next
  fix ins obs
  assume a: "end_page = None \<and> body \<noteq> [] \<and> trace r = []"
  let ?a = "announce pdf_path start_page r"
  let ?res = "read_pdf pdf_path start_page ins obs r"
  from assms a have f: "fst (extract_text_from_pdf pdf_path start_page None ?a) = (Some body, total_pages)"
    by (simp add: extract_only_pdfs [of ?a r])
  then have "snd (extract_text_from_pdf pdf_path start_page None ?a) = ?a"
    by (rule extract_Some_reader)
  with f have ex: "extract_text_from_pdf pdf_path start_page None ?a = ((Some body, total_pages), ?a)"
    by (simp add: prod_eq_iff)
  from a have tr: "trace ?a = []" by simp
  with ex a have run: "handle_controls 0 pdf_path start_page total_pages ins obs (start 0 body ?a)
      = (fst ?res, fst (snd ?res), fst (snd (snd ?res)), snd (snd (snd ?res)))"
    by (simp add: read_pdf.simps)
  have "orderly [] (trace (start 0 body ?a))" "set (live_tasks (trace (start 0 body ?a))) \<subseteq> {0}"
    using tr by (simp_all add: live_tasks_def)
  from handle_controls_orderly [OF run this]
  have "prefix (trace (start 0 body ?a)) (trace (snd (snd (snd ?res))))" by blast
  with tr show "prefix [Start 0 body] (trace (snd (snd (snd ?res))))" by simp
qed


theorem extracted_text_has_markers_witness:
  "fst (extract_text_from_pdf ''a.pdf'' 0 None
      (new_reader Missing None (\<lambda>p. Pdf [Page ''One. Two.'', Page ''Three.''])))
    = (Some (CHR 0x0A # ''--- Page 1 ---'' @ CHR 0x0A # ''One. Two.'' @
             CHR 0x0A # ''--- Page 2 ---'' @ CHR 0x0A # ''Three.''), 2) \<and>
   (\<exists>pages ts.
      pdfs (new_reader Missing None (\<lambda>p. Pdf [Page ''One. Two.'', Page ''Three.''])) ''a.pdf''
        = Pdf pages \<and>
      map (\<lambda>i. pages ! nat i) [0 .. 1] = map Page ts \<and>
      CHR 0x0A # ''--- Page 1 ---'' @ CHR 0x0A # ''One. Two.'' @
      CHR 0x0A # ''--- Page 2 ---'' @ CHR 0x0A # ''Three.''
        = concat (map (\<lambda>(i, t). CHR 0x0A # ''--- Page '' @ str_int (i + 1) @ '' ---'' @ CHR 0x0A # t)
            (zip [0 .. 1] ts))) \<and>
   str_int 12 \<noteq> [] \<and> foldl (\<lambda>a c. 10 * a + (of_char c - 48)) (0::nat) (str_int 12) = 12 \<and>
   prefix [Start 0 (CHR 0x0A # ''--- Page 1 ---'' @ CHR 0x0A # ''One. Two.'' @
                    CHR 0x0A # ''--- Page 2 ---'' @ CHR 0x0A # ''Three.'')]
     (trace (snd (snd (snd (read_pdf ''a.pdf'' 0 [Line ''s''] [True]
        (new_reader Missing None (\<lambda>p. Pdf [Page ''One. Two.'', Page ''Three.''])))))))"
proof -
  let ?r = "new_reader Missing None (\<lambda>p. Pdf [Page ''One. Two.'', Page ''Three.''])"
  let ?t = "CHR 0x0A # ''--- Page 1 ---'' @ CHR 0x0A # ''One. Two.'' @
            CHR 0x0A # ''--- Page 2 ---'' @ CHR 0x0A # ''Three.''"
  have f: "fst (extract_text_from_pdf ''a.pdf'' 0 None ?r) = (Some ?t, 2)"
    by code_simp
  have ne: "?t \<noteq> []" by simp
  have tr: "trace ?r = []" by (simp add: new_reader_def)
  note t = extracted_text_has_markers [OF f]
  from t [THEN conjunct1] obtain pages ts where p: "pdfs ?r ''a.pdf'' = Pdf pages"
    "?t = concat (map (\<lambda>(i, t). CHR 0x0A # ''--- Page '' @ str_int (i + 1) @ '' ---'' @ CHR 0x0A # t)
        (zip [0 .. min 2 2 - 1] ts))"
    "(0::int) \<le> 0 \<longrightarrow> map (\<lambda>i. pages ! nat i) [0 .. min 2 2 - 1] = map Page ts"
    by auto
  from p have a: "\<exists>pages ts. pdfs ?r ''a.pdf'' = Pdf pages \<and>
      map (\<lambda>i. pages ! nat i) [0 .. 1] = map Page ts \<and>
      ?t = concat (map (\<lambda>(i, t). CHR 0x0A # ''--- Page '' @ str_int (i + 1) @ '' ---'' @ CHR 0x0A # t)
        (zip [0 .. 1] ts))"
    by (intro exI [of _ pages] exI [of _ ts]) simp
  from t [THEN conjunct2, THEN conjunct1, THEN spec, of 12]
  have d: "str_int 12 \<noteq> []"
    "foldl (\<lambda>a c. 10 * a + (of_char c - 48)) (0::nat) (str_int 12) = 12"
    by simp_all
  from t [THEN conjunct2, THEN conjunct2] ne tr have b: "prefix [Start 0 ?t]
     (trace (snd (snd (snd (read_pdf ''a.pdf'' 0 [Line ''s''] [True] ?r)))))" by blast
  from f a d b show ?thesis by (intro conjI)
qed

section \<open>The narration task\<close>

lemma speak_loop_spoken:
  assumes "speak_loop env sink ss n = Some (out, n')"
  shows "\<exists>done. map snd (spoken n') = map snd (spoken n) @ done \<and>
      (\<forall>e. out = Raised e \<longrightarrow>
         (\<exists>u rest. map strip (filter (\<lambda>s. strip s \<noteq> []) ss) = done @ u # rest \<and>
            sink u (engine n') = Inl e)) \<and>
      (out = Completed \<longrightarrow>
         map strip (filter (\<lambda>s. strip s \<noteq> []) ss) = done \<or> (\<exists>t<clock n'. stopped_at env t))"
  using assms
proof (induction ss arbitrary: n)
  case Nil
  then show ?case by auto
next
  case (Cons s ss)
  show ?case
  proof (cases "stopped_at env (clock n)")
    case True
    with Cons.prems show ?thesis by auto
  next
    case False
    with Cons.prems obtain t where w: "wait_while_paused env (clock n + 1) = Some t"
      by (auto split: option.splits)
    show ?thesis
    proof (cases "stopped_at env t")
      case True
      with Cons.prems False w show ?thesis by auto
    next
      case running: False
      show ?thesis
      proof (cases "strip s = []")
        case True
        with Cons.prems False w running
        have "speak_loop env sink ss (n\<lparr>clock := t + 1\<rparr>) = Some (out, n')" by simp
        from Cons.IH [OF this] True show ?thesis by auto
      next
        case unit: False
        show ?thesis
        proof (cases "sink (strip s) (engine n)")
          case (Inl e)
          with Cons.prems False w running unit
          have "out = Raised e" "n' = n\<lparr>clock := t + 1\<rparr>" by simp_all
          with Inl unit show ?thesis by auto
        next
          case (Inr eng)
          with Cons.prems False w running unit
          have "speak_loop env sink ss
              (n\<lparr>engine := eng, spoken := spoken n @ [(t + 1, strip s)], clock := t + 1\<rparr>)
              = Some (out, n')" by simp
          from Cons.IH [OF this] obtain dn where
            d: "map snd (spoken n') = map snd (spoken n) @ strip s # dn"
            and o: "\<forall>e. out = Raised e \<longrightarrow>
               (\<exists>u rest. map strip (filter (\<lambda>s. strip s \<noteq> []) ss) = dn @ u # rest \<and>
                  sink u (engine n') = Inl e)"
              "out = Completed \<longrightarrow>
                 map strip (filter (\<lambda>s. strip s \<noteq> []) ss) = dn \<or> (\<exists>t<clock n'. stopped_at env t)"
            by auto
          from d o unit show ?thesis
            by (intro exI [of _ "strip s # dn"]) auto
        qed
      qed
    qed
  qed
qed


lemma not_stopped_before:
  assumes "\<forall>t t'. stopped_at env t \<and> t \<le> t' \<longrightarrow> stopped_at env t'" and "\<not> stopped_at env t"
  shows "\<forall>t'<Suc t. \<not> stopped_at env t'"
proof (intro allI impI)
  fix t' assume "t' < Suc t"
  then have "t' \<le> t" by simp
  with assms show "\<not> stopped_at env t'" by blast
qed

lemma speak_loop_render_times:
  assumes "\<forall>t t'. stopped_at env t \<and> t \<le> t' \<longrightarrow> stopped_at env t'"
    and "speak_loop env sink ss n = Some (out, n')"
    and "\<forall>x\<in>set (spoken n). \<forall>t'<fst x. \<not> stopped_at env t'"
  shows "\<forall>x\<in>set (spoken n'). \<forall>t'<fst x. \<not> stopped_at env t'"
  using assms(2,3)
proof (induction ss arbitrary: n)
  case Nil
  then show ?case by simp
next
  case (Cons s ss)
  show ?case
  proof (cases "stopped_at env (clock n)")
    case True
    with Cons.prems show ?thesis by auto
  next
    case False
    with Cons.prems obtain t where w: "wait_while_paused env (clock n + 1) = Some t"
      by (auto split: option.splits)
    show ?thesis
    proof (cases "stopped_at env t")
      case True
      with Cons.prems False w show ?thesis by auto
    next
      case running: False
      with assms(1) have nb: "\<forall>t'<Suc t. \<not> stopped_at env t'" by (rule not_stopped_before)
      show ?thesis
      proof (cases "strip s = []")
        case True
        with Cons.prems False w running
        have "speak_loop env sink ss (n\<lparr>clock := t + 1\<rparr>) = Some (out, n')" by simp
        from Cons.IH [OF this] Cons.prems(2) show ?thesis by simp
      next
        case unit: False
        show ?thesis
        proof (cases "sink (strip s) (engine n)")
          case (Inl e)
          with Cons.prems False w running unit show ?thesis by auto
        next
          case (Inr eng)
          with Cons.prems False w running unit
          have "speak_loop env sink ss
              (n\<lparr>engine := eng, spoken := spoken n @ [(t + 1, strip s)], clock := t + 1\<rparr>)
              = Some (out, n')" by simp
          from Cons.IH [OF this] Cons.prems(2) nb show ?thesis by simp
        qed
      qed
    qed
  qed
qed

lemma wait_ends_when_stopped:
  assumes "\<forall>t t'. stopped_at env t \<and> t \<le> t' \<longrightarrow> stopped_at env t'" and "stopped_at env t0"
  shows "t \<le> t0 \<Longrightarrow> \<exists>t'. wait_while_paused env t = Some t' \<and> t' \<le> t0 + 2"
proof (induction "t0 - t" arbitrary: t rule: less_induct)
  case less
  show ?case
  proof (cases "paused_at env t")
    case False
    with less.prems show ?thesis by (subst wait_while_paused.simps) simp
  next
    case True
    show ?thesis
    proof (cases "stopped_at env (Suc t)")
      case stopped: True
      with True less.prems show ?thesis by (subst wait_while_paused.simps) simp
    next
      case False
      with assms have "\<not> t0 \<le> Suc t" by blast
      then have "t + 2 \<le> t0" "t0 - (t + 2) < t0 - t" by simp_all
      from less.hyps [OF this(2,1)] obtain t' where
        "wait_while_paused env (t + 2) = Some t'" "t' \<le> t0 + 2" by blast
      with True False show ?thesis by (subst wait_while_paused.simps) simp
    qed
  qed
qed

lemma wait_not_paused: "\<forall>t. \<not> paused_at env t \<Longrightarrow> wait_while_paused env t = Some (Suc t)"
  by (subst wait_while_paused.simps) simp

lemma speak_loop_ends_when_stopped:
  assumes "\<forall>t t'. stopped_at env t \<and> t \<le> t' \<longrightarrow> stopped_at env t'" and "stopped_at env t0"
  shows "clock n \<le> t0 \<Longrightarrow> \<exists>out n'. speak_loop env sink ss n = Some (out, n') \<and> clock n' \<le> t0 + 3"
proof (induction ss arbitrary: n)
  case Nil
  then show ?case by simp
next
  case (Cons s ss)
  show ?case
  proof (cases "stopped_at env (clock n)")
    case True
    with Cons.prems show ?thesis by simp
  next
    case False
    with assms have "\<not> t0 \<le> clock n" by blast
    then have "clock n + 1 \<le> t0" by simp
    from wait_ends_when_stopped [OF assms this] obtain t where
      w: "wait_while_paused env (clock n + 1) = Some t" and t: "t \<le> t0 + 2" by blast
    show ?thesis
    proof (cases "stopped_at env t")
      case True
      with False w t show ?thesis by simp
    next
      case running: False
      with assms have "\<not> t0 \<le> t" by blast
      then have c: "t + 1 \<le> t0" by simp
      show ?thesis
      proof (cases "strip s = []")
        case True
        from Cons.IH [of "n\<lparr>clock := t + 1\<rparr>"] c False w running True
        show ?thesis by simp
      next
        case unit: False
        show ?thesis
        proof (cases "sink (strip s) (engine n)")
          case (Inl e)
          with False w running unit c show ?thesis by simp
        next
          case (Inr eng)
          from Cons.IH [of "n\<lparr>engine := eng, spoken := spoken n @ [(t + 1, strip s)],
              clock := t + 1\<rparr>"] c False w running unit Inr
          show ?thesis by simp
        qed
      qed
    qed
  qed
qed

lemma speak_loop_ends_when_not_paused:
  assumes "\<forall>t. \<not> paused_at env t"
  shows "\<exists>out n'. speak_loop env sink ss n = Some (out, n')"
proof (induction ss arbitrary: n)
  case Nil
  then show ?case by simp
next
  case (Cons s ss)
  from assms have w: "wait_while_paused env (Suc (clock n)) = Some (Suc (Suc (clock n)))"
    by (rule wait_not_paused)
  show ?case
  proof (cases "sink (strip s) (engine n)")
    case (Inl e)
    from Cons.IH [of "n\<lparr>clock := Suc (Suc (Suc (clock n)))\<rparr>"] Inl w
    show ?thesis by simp
  next
    case (Inr eng)
    from Cons.IH [of "n\<lparr>clock := Suc (Suc (Suc (clock n)))\<rparr>"]
      Cons.IH [of "n\<lparr>engine := eng,
        spoken := spoken n @ [(Suc (Suc (Suc (clock n))), strip s)],
        clock := Suc (Suc (Suc (clock n)))\<rparr>"] Inr w
    show ?thesis by simp
  qed
qed


lemma speak_loop_raises:
  assumes "\<forall>t. \<not> paused_at env t" and "\<forall>t. \<not> stopped_at env t" and "\<forall>s. sink u s = Inl e"
  shows "map strip (filter (\<lambda>s. strip s \<noteq> []) ss) = dn @ u # rest \<Longrightarrow>
     \<forall>v\<in>set dn. \<forall>s. \<exists>s'. sink v s = Inr s' \<Longrightarrow>
     \<exists>n'. speak_loop env sink ss n = Some (Raised e, n') \<and>
          map snd (spoken n') = map snd (spoken n) @ dn"
proof (induction ss arbitrary: n dn)
  case Nil
  then show ?case by simp
next
  case (Cons s ss)
  from assms(1) have w: "wait_while_paused env (Suc (clock n)) = Some (Suc (Suc (clock n)))"
    by (rule wait_not_paused)
  let ?c = "Suc (Suc (Suc (clock n)))"
  show ?case
  proof (cases "strip s = []")
    case True
    with Cons.prems have "map strip (filter (\<lambda>s. strip s \<noteq> []) ss) = dn @ u # rest" by simp
    from Cons.IH [OF this Cons.prems(2), of "n\<lparr>clock := ?c\<rparr>"] True assms(2) w
    show ?thesis by simp
  next
    case unit: False
    with Cons.prems(1)
    have eq: "strip s # map strip (filter (\<lambda>s. strip s \<noteq> []) ss) = dn @ u # rest" by simp
    show ?thesis
    proof (cases dn)
      case Nil
      with eq have "strip s = u" by simp
      with assms(3) have "sink (strip s) (engine n) = Inl e" by simp
      with Nil unit assms(2) w show ?thesis by simp
    next
      case more: (Cons v dn')
      with eq have v: "strip s = v" and tl: "map strip (filter (\<lambda>s. strip s \<noteq> []) ss) = dn' @ u # rest"
        by simp_all
      from more Cons.prems(2) have ok: "\<forall>v\<in>set dn'. \<forall>s. \<exists>s'. sink v s = Inr s'" by simp
      from more Cons.prems(2) v have "\<exists>s'. sink (strip s) (engine n) = Inr s'" by simp
      then obtain eng where sk: "sink (strip s) (engine n) = Inr eng" ..
      from Cons.IH [OF tl ok, of "n\<lparr>engine := eng, spoken := spoken n @ [(?c, strip s)],
          clock := ?c\<rparr>"] sk unit assms(2) w more v
      show ?thesis by simp
    qed
  qed
qed

text \<open>With the flags never set and an engine that raises on no unit, \<open>speak_text\<close> returns
  after rendering the units of \<open>segment\<close>, in their order.\<close>

lemma speak_text_renders_segment:
  assumes "\<forall>t. \<not> paused_at env t" and "\<forall>t. \<not> stopped_at env t" and "\<forall>u s e. sink u s \<noteq> Inl e"
  shows "\<exists>n. speak_text env sink body eng = Some (Completed, n) \<and> map snd (spoken n) = segment body"
proof -
  from speak_loop_ends_when_not_paused [OF assms(1)] obtain out n where
    r: "speak_loop env sink (re_split body) \<lparr>engine = eng, spoken = [], clock = 0\<rparr> = Some (out, n)"
    by blast
  from speak_loop_spoken [OF r] assms(2,3) have "out = Completed"
    and "map snd (spoken n) = segment body"
    unfolding segment_def by (cases out; auto)+
  with r show ?thesis unfolding speak_text_def by simp
qed

text \<open>
  C1, as stated, fails: \<open>speak_text\<close> has no handler around \<open>engine.say\<close> and
  \<open>engine.runAndWait\<close>.  With the flags never set and an engine that raises on the unit
  \<open>b\<close>, the text \<open>a. b. c\<close> has three units; \<open>a\<close> is rendered, the error raised at \<open>b\<close>
  leaves \<open>speak_text\<close>, and \<open>c\<close> is never rendered.
\<close>

theorem sink_error_escapes_counterexample:
  "segment ''a. b. c'' = [''a'', ''b'', ''c''] \<and>
   speak_text \<lparr>paused_at = (\<lambda>t. False), stopped_at = (\<lambda>t. False)\<rparr>
     (\<lambda>u e. if u = ''b'' then Inl (EngineError ''no voice'') else Inr e) ''a. b. c'' ()
   = Some (Raised (EngineError ''no voice''), \<lparr>engine = (), spoken = [(3, ''a'')], clock = 6\<rparr>)"
  by code_simp

text \<open>
  C1, amended.  An error that the engine raises on a unit is not caught in \<open>speak_text\<close>:
  whenever \<open>speak_text\<close> ends with an error \<open>e\<close>, the units rendered are exactly those
  before some unit \<open>u\<close> of the text on which the engine raised \<open>e\<close>, and \<open>u\<close> and the
  units after it are not rendered.  With the flags never set, an engine that renders the
  units before \<open>u\<close> and raises on \<open>u\<close> makes \<open>speak_text\<close> end so.  No error leaves
  \<open>speak_text\<close> when the engine raises on no unit.
\<close>

theorem sink_error_aborts_narration:
  "(\<forall>e n. speak_text env sink body eng = Some (Raised e, n) \<longrightarrow>
      (\<exists>u rest. segment body = map snd (spoken n) @ u # rest \<and> sink u (engine n) = Inl e)) \<and>
   ((\<forall>t. \<not> paused_at env t) \<and> (\<forall>t. \<not> stopped_at env t) \<and> segment body = dn @ u # rest \<and>
    (\<forall>v\<in>set dn. \<forall>s. \<exists>s'. sink v s = Inr s') \<and> (\<forall>s. sink u s = Inl e) \<longrightarrow>
      (\<exists>n. speak_text env sink body eng = Some (Raised e, n) \<and> map snd (spoken n) = dn)) \<and>
   ((\<forall>u s e. sink u s \<noteq> Inl e) \<longrightarrow> (\<forall>e n. speak_text env sink body eng \<noteq> Some (Raised e, n)))"
proof -
  have 1: "\<exists>u rest. segment body = map snd (spoken n) @ u # rest \<and> sink u (engine n) = Inl e"
    if "speak_text env sink body eng = Some (Raised e, n)" for e n
    using speak_loop_spoken [of env sink "re_split body" _ "Raised e" n] that
    unfolding speak_text_def segment_def by fastforce
  have 2: "\<exists>n. speak_text env sink body eng = Some (Raised e, n) \<and> map snd (spoken n) = dn"
    if "\<forall>t. \<not> paused_at env t" "\<forall>t. \<not> stopped_at env t" "segment body = dn @ u # rest"
      "\<forall>v\<in>set dn. \<forall>s. \<exists>s'. sink v s = Inr s'" "\<forall>s. sink u s = Inl e"
    using speak_loop_raises [OF that(1,2,5) that(3) [unfolded segment_def] that(4),
        of "\<lparr>engine = eng, spoken = [], clock = 0\<rparr>"]
    unfolding speak_text_def by simp
  from 1 2 show ?thesis by (intro conjI) blast+
qed

theorem sink_error_aborts_narration_witness:
  "(\<exists>u rest. [''a'', ''b'', ''c''] = [''a''] @ u # rest \<and>
      (if u = ''b'' then Inl (EngineError ''no voice'') else Inr ()) = Inl (EngineError ''no voice'')) \<and>
   (\<exists>n. speak_text \<lparr>paused_at = (\<lambda>t. False), stopped_at = (\<lambda>t. False)\<rparr>
       (\<lambda>u e. if u = ''b'' then Inl (EngineError ''no voice'') else Inr e) ''a. b. c'' ()
       = Some (Raised (EngineError ''no voice''), n) \<and> map snd (spoken n) = [''a''])"
proof -
  let ?env = "\<lparr>paused_at = (\<lambda>t. False), stopped_at = (\<lambda>t. False)\<rparr>"
  let ?sink = "\<lambda>u (e::unit). if u = ''b'' then Inl (EngineError ''no voice'') else Inr e"
  let ?n = "\<lparr>engine = (), spoken = [(3, ''a'')], clock = 6\<rparr>"
  have s: "segment ''a. b. c'' = [''a'', ''b'', ''c'']" by code_simp
  have r: "speak_text ?env ?sink ''a. b. c'' () = Some (Raised (EngineError ''no voice''), ?n)"
    by code_simp
  note t = sink_error_aborts_narration [of ?env ?sink "''a. b. c''" "()" "[''a'']" "''b''" "[''c'']"
      "EngineError ''no voice''"]
  from t r have "\<exists>u rest. segment ''a. b. c'' = map snd (spoken ?n) @ u # rest \<and>
      ?sink u (engine ?n) = Inl (EngineError ''no voice'')" by blast
  then have a: "\<exists>u rest. [''a'', ''b'', ''c''] = [''a''] @ u # rest \<and>
      (if u = ''b'' then Inl (EngineError ''no voice'') else Inr ()) = Inl (EngineError ''no voice'')"
    unfolding s by simp
  have "(\<forall>t. \<not> paused_at ?env t) \<and> (\<forall>t. \<not> stopped_at ?env t) \<and>
      segment ''a. b. c'' = [''a''] @ ''b'' # [''c''] \<and>
      (\<forall>v\<in>set [''a'']. \<forall>s. \<exists>s'. ?sink v s = Inr s') \<and>
      (\<forall>s. ?sink ''b'' s = Inl (EngineError ''no voice''))"
    unfolding s by simp
  with t have b: "\<exists>n. speak_text ?env ?sink ''a. b. c'' () = Some (Raised (EngineError ''no voice''), n) \<and>
      map snd (spoken n) = [''a'']" by blast
  from a b show ?thesis by blast
qed


text \<open>
  C3, as stated, fails in its last part: \<open>speak_text\<close> also ends when the engine raises
  on a unit (see C1).  Here it ends at the second of three units, with the third never
  rendered and \<open>stopped\<close> never set.
\<close>

theorem sink_error_ends_task_counterexample:
  "speak_text \<lparr>paused_at = (\<lambda>t. False), stopped_at = (\<lambda>t. False)\<rparr>
     (\<lambda>u e. if u = ''two'' then Inl (EngineError ''busy'') else Inr e) ''one! two? three'' ()
   = Some (Raised (EngineError ''busy''), \<lparr>engine = (), spoken = [(3, ''one'')], clock = 6\<rparr>) \<and>
   segment ''one! two? three'' = [''one'', ''two'', ''three''] \<and>
   \<not> (\<exists>t. stopped_at \<lparr>paused_at = (\<lambda>t. False), stopped_at = (\<lambda>t. False)\<rparr> t)"
proof -
  have "speak_text \<lparr>paused_at = (\<lambda>t. False), stopped_at = (\<lambda>t. False)\<rparr>
     (\<lambda>u e. if u = ''two'' then Inl (EngineError ''busy'') else Inr e) ''one! two? three'' ()
   = Some (Raised (EngineError ''busy''), \<lparr>engine = (), spoken = [(3, ''one'')], clock = 6\<rparr>)"
    by code_simp
  moreover have "segment ''one! two? three'' = [''one'', ''two'', ''three'']" by code_simp
  ultimately show ?thesis by simp
qed

text \<open>
  C3, amended.  \<open>stopped\<close> is set once and not cleared while the task lives (\<open>read_pdf\<close>
  clears it only before it starts a thread), so its reads are monotone.  Then, for every
  engine and every behaviour of \<open>paused\<close>: a unit is rendered only if every read of
  \<open>stopped\<close> before it returned false, so none is rendered once a read has seen \<open>stopped\<close>
  set; when \<open>speak_text\<close> ends, all units of the text have been rendered, or \<open>stopped\<close>
  was seen set, or the engine raised on the unit after those rendered; if \<open>stopped\<close> is
  set from read \<open>t0\<close> on, the task ends, paused or not, after at most three more reads of
  the flags; and a task that is never paused ends.
\<close>

theorem stop_signal_honoured:
  assumes "\<forall>t t'. stopped_at env t \<and> t \<le> t' \<longrightarrow> stopped_at env t'"
  shows "(\<forall>out n. speak_text env sink body eng = Some (out, n) \<longrightarrow>
            (\<forall>x\<in>set (spoken n). \<forall>t'<fst x. \<not> stopped_at env t') \<and>
            (map snd (spoken n) = segment body \<or> (\<exists>t<clock n. stopped_at env t) \<or>
             (\<exists>e u rest. out = Raised e \<and> segment body = map snd (spoken n) @ u # rest \<and>
                sink u (engine n) = Inl e))) \<and>
         (\<forall>t0. stopped_at env t0 \<longrightarrow>
            (\<exists>out n. speak_text env sink body eng = Some (out, n) \<and> clock n \<le> t0 + 3)) \<and>
         ((\<forall>t. \<not> paused_at env t) \<longrightarrow> (\<exists>out n. speak_text env sink body eng = Some (out, n)))"
proof (intro conjI allI impI)
  fix out n assume r: "speak_text env sink body eng = Some (out, n)"
  then show "\<forall>x\<in>set (spoken n). \<forall>t'<fst x. \<not> stopped_at env t'"
    unfolding speak_text_def by (rule speak_loop_render_times [OF assms]) simp
  from speak_loop_spoken [OF r [unfolded speak_text_def]]
  show "map snd (spoken n) = segment body \<or> (\<exists>t<clock n. stopped_at env t) \<or>
      (\<exists>e u rest. out = Raised e \<and> segment body = map snd (spoken n) @ u # rest \<and>
         sink u (engine n) = Inl e)"
    unfolding segment_def by (cases out) auto
next
  fix t0 assume "stopped_at env t0"
  from speak_loop_ends_when_stopped [OF assms this, of "\<lparr>engine = eng, spoken = [], clock = 0\<rparr>"]
  show "\<exists>out n. speak_text env sink body eng = Some (out, n) \<and> clock n \<le> t0 + 3"
    unfolding speak_text_def by simp
next
  assume "\<forall>t. \<not> paused_at env t"
  then show "\<exists>out n. speak_text env sink body eng = Some (out, n)"
    unfolding speak_text_def by (rule speak_loop_ends_when_not_paused)
qed


theorem stop_signal_honoured_witness:
  "speak_text \<lparr>paused_at = (\<lambda>t. True), stopped_at = (\<lambda>t. 4 \<le> t)\<rparr> (\<lambda>u e. Inr e) ''a. b. c'' ()
     = Some (Completed, \<lparr>engine = (), spoken = [], clock = 6\<rparr>) \<and>
   (\<exists>out n. speak_text \<lparr>paused_at = (\<lambda>t. True), stopped_at = (\<lambda>t. 4 \<le> t)\<rparr> (\<lambda>u e. Inr e)
        ''a. b. c'' () = Some (out, n) \<and> clock n \<le> 7) \<and>
   speak_text \<lparr>paused_at = (\<lambda>t. False), stopped_at = (\<lambda>t. 4 \<le> t)\<rparr> (\<lambda>u e. Inr e) ''a. b. c'' ()
     = Some (Completed, \<lparr>engine = (), spoken = [(3, ''a'')], clock = 6\<rparr>) \<and>
   \<not> stopped_at \<lparr>paused_at = (\<lambda>t. False), stopped_at = (\<lambda>t. 4 \<le> t)\<rparr> 2 \<and>
   (\<exists>t<6. stopped_at \<lparr>paused_at = (\<lambda>t. False), stopped_at = (\<lambda>t. 4 \<le> t)\<rparr> t) \<and>
   speak_text \<lparr>paused_at = (\<lambda>t. False), stopped_at = (\<lambda>t. False)\<rparr>
     (\<lambda>u e. if u = ''b'' then Inl (EngineError ''busy'') else Inr e) ''a. b. c'' ()
     = Some (Raised (EngineError ''busy''), \<lparr>engine = (), spoken = [(3, ''a'')], clock = 6\<rparr>) \<and>
   (\<exists>u rest. [''a'', ''b'', ''c''] = [''a''] @ u # rest \<and>
      (if u = ''b'' then Inl (EngineError ''busy'') else Inr ()) = Inl (EngineError ''busy''))"
proof -
  let ?p = "\<lparr>paused_at = (\<lambda>t. True), stopped_at = (\<lambda>t. 4 \<le> t)\<rparr>"
  let ?e = "\<lparr>paused_at = (\<lambda>t. False), stopped_at = (\<lambda>t. 4 \<le> t)\<rparr>"
  let ?f = "\<lparr>paused_at = (\<lambda>t. False), stopped_at = (\<lambda>t. False)\<rparr>"
  let ?sink = "\<lambda>u (e::unit). Inr e :: exn + unit"
  let ?bad = "\<lambda>u (e::unit). if u = ''b'' then Inl (EngineError ''busy'') else Inr e"
  have m: "\<forall>t t'. stopped_at ?p t \<and> t \<le> t' \<longrightarrow> stopped_at ?p t'"
    "\<forall>t t'. stopped_at ?e t \<and> t \<le> t' \<longrightarrow> stopped_at ?e t'"
    "\<forall>t t'. stopped_at ?f t \<and> t \<le> t' \<longrightarrow> stopped_at ?f t'" by simp_all
  have r1: "speak_text ?p ?sink ''a. b. c'' () = Some (Completed, \<lparr>engine = (), spoken = [], clock = 6\<rparr>)"
    by code_simp
  have r2: "speak_text ?e ?sink ''a. b. c'' ()
      = Some (Completed, \<lparr>engine = (), spoken = [(3, ''a'')], clock = 6\<rparr>)"
    by code_simp
  have r3: "speak_text ?f ?bad ''a. b. c'' ()
      = Some (Raised (EngineError ''busy''), \<lparr>engine = (), spoken = [(3, ''a'')], clock = 6\<rparr>)"
    by code_simp
  have s: "segment ''a. b. c'' = [''a'', ''b'', ''c'']" by code_simp
  have st: "stopped_at ?p 4" by simp
  note k1 = stop_signal_honoured [OF m(1), of ?sink "''a. b. c''" "()",
      THEN conjunct2, THEN conjunct1, THEN spec, THEN mp, OF st]
  then have a: "\<exists>out n. speak_text ?p ?sink ''a. b. c'' () = Some (out, n) \<and> clock n \<le> 7"
    by simp
  note k2 = stop_signal_honoured [OF m(2), of ?sink "''a. b. c''" "()",
      THEN conjunct1, THEN spec, THEN spec, THEN mp, OF r2]
  from k2 [THEN conjunct1] have b1: "\<not> stopped_at ?e 2" by simp
  from k2 [THEN conjunct2] have b2: "\<exists>t<6. stopped_at ?e t" unfolding s by simp
  note k3 = stop_signal_honoured [OF m(3), of ?bad "''a. b. c''" "()",
      THEN conjunct1, THEN spec, THEN spec, THEN mp, OF r3, THEN conjunct2]
  then have c: "\<exists>u rest. [''a'', ''b'', ''c''] = [''a''] @ u # rest \<and>
      (if u = ''b'' then Inl (EngineError ''busy'') else Inr ()) = Inl (EngineError ''busy'')"
    unfolding s by simp
  from r1 a r2 b1 b2 r3 c show ?thesis by (intro conjI)
qed

end
